theory Spec2Isabelle
  imports Complex_Main "HOL-Library.Log_Nat" "HOL-Library.Sublist"
begin

section \<open>JavaScript strings\<close>

text \<open>
  Strings are lists of code units; the model covers code units below 256 (Isabelle's
  \<open>char\<close>). \<open>split_on sep s\<close> is \<^verbatim>\<open>s.split(sep)\<close> for a one-character separator:
  the result always has at least one element (\<^verbatim>\<open>"".split(".")\<close> is \<^verbatim>\<open>[""]\<close>).
\<close>

fun split_on :: "char \<Rightarrow> string \<Rightarrow> string list" where
  "split_on sep [] = [[]]"
| "split_on sep (c # cs) =
     (if c = sep then [] # split_on sep cs
      else (case split_on sep cs of [] \<Rightarrow> [[c]] | p # ps \<Rightarrow> (c # p) # ps))"

text \<open>\<^verbatim>\<open>parts.join(sep)\<close>.\<close>

fun join :: "string \<Rightarrow> string list \<Rightarrow> string" where
  "join sep [] = []"
| "join sep [p] = p"
| "join sep (p # q # ps) = p @ sep @ join sep (q # ps)"

text \<open>\<^verbatim>\<open>xs[i]\<close>: \<open>None\<close> is \<^verbatim>\<open>undefined\<close>, what JavaScript yields out of range.\<close>

definition at_index :: "'a list \<Rightarrow> nat \<Rightarrow> 'a option" where
  "at_index xs i = (if i < length xs then Some (xs ! i) else None)"

text \<open>The decimal digits \<^verbatim>\<open>0\<close> to \<^verbatim>\<open>9\<close> (code units 48 to 57): \<^verbatim>\<open>[0-9]\<close> and \<^verbatim>\<open>\d\<close>.\<close>

definition is_digit :: "char \<Rightarrow> bool" where
  "is_digit c \<longleftrightarrow> 48 \<le> (of_char c :: int) \<and> (of_char c :: int) \<le> 57"

text \<open>
  The value of an alphanumeric code unit as a digit: \<open>0\<close> to \<open>9\<close>, then letters of
  either case from 10; anything else is no digit in any radix (36 and above).
\<close>

definition digit_val :: "char \<Rightarrow> int" where
  "digit_val c =
     (let n = (of_char c :: int)
      in if 48 \<le> n \<and> n \<le> 57 then n - 48
         else if 97 \<le> n \<and> n \<le> 122 then n - 87
         else if 65 \<le> n \<and> n \<le> 90 then n - 55
         else 36)"

definition is_radix_digit :: "int \<Rightarrow> char \<Rightarrow> bool" where
  "is_radix_digit r c \<longleftrightarrow> digit_val c < r"

definition radix_val :: "int \<Rightarrow> string \<Rightarrow> int" where
  "radix_val r ds = foldl (\<lambda>n c. r * n + digit_val c) 0 ds"

text \<open>
  White space and line terminators that \<^verbatim>\<open>Number\<close> and \<^verbatim>\<open>parseInt\<close> strip,
  among the code units below 256: TAB, LF, VT, FF, CR, SP, NBSP.
\<close>

definition is_space :: "char \<Rightarrow> bool" where
  "is_space c \<longleftrightarrow> (of_char c :: int) \<in> {9, 10, 11, 12, 13, 32, 160}"

definition trim_start :: "string \<Rightarrow> string" where
  "trim_start s = dropWhile is_space s"

definition trim :: "string \<Rightarrow> string" where
  "trim s = rev (dropWhile is_space (rev (dropWhile is_space s)))"

section \<open>JavaScript numbers\<close>

text \<open>
  A JavaScript number is an IEEE 754 double. \<open>Fin q\<close> is the finite double of exact
  value \<open>q\<close> (the two zeros are one value: the code never tells them apart).
  \<open>to_double\<close> rounds a rational to the nearest double, ties to even, with gradual
  underflow and overflow to the infinities: 53 bits of precision, least exponent
  \<open>-1022\<close>, so the unit in the last place of \<open>q\<close> is \<open>2 powi e\<close> for
  \<open>e = max \<lfloor>log\<^sub>2 \<bar>q\<bar>\<rfloor> (-1022) - 52\<close>.
\<close>

datatype jsnum = NaN | NInf | Fin rat | PInf

definition round_even :: "rat \<Rightarrow> int" where
  "round_even x =
     (let f = \<lfloor>x\<rfloor>; r = x - of_int f
      in if r < 1 / 2 then f
         else if 1 / 2 < r then f + 1
         else if even f then f else f + 1)"

definition ilog2 :: "rat \<Rightarrow> int" where
  "ilog2 q =
     (let (n, d) = quotient_of q;
          k = bitlen n - bitlen d
      in if 2 powi k \<le> q then k else k - 1)"

definition to_double :: "rat \<Rightarrow> jsnum" where
  "to_double q =
     (if q = 0 then Fin 0
      else
        let e = max (ilog2 \<bar>q\<bar>) (- 1022) - 52;
            v = of_int (round_even (q / 2 powi e)) * 2 powi e
        in if 2 ^ 1024 \<le> v then PInf
           else if v \<le> - (2 ^ 1024) then NInf
           else Fin v)"

text \<open>\<^verbatim>\<open>x - y\<close> on numbers.\<close>

fun jsub :: "jsnum \<Rightarrow> jsnum \<Rightarrow> jsnum" where
  "jsub (Fin x) (Fin y) = to_double (x - y)"
| "jsub NaN _ = NaN"
| "jsub _ NaN = NaN"
| "jsub PInf PInf = NaN"
| "jsub NInf NInf = NaN"
| "jsub PInf _ = PInf"
| "jsub NInf _ = NInf"
| "jsub (Fin x) PInf = NInf"
| "jsub (Fin x) NInf = PInf"

text \<open>\<^verbatim>\<open>x < y\<close> and \<^verbatim>\<open>x <= y\<close> on numbers: false as soon as one side is NaN.\<close>

fun jless :: "jsnum \<Rightarrow> jsnum \<Rightarrow> bool" where
  "jless NaN _ = False"
| "jless _ NaN = False"
| "jless (Fin x) (Fin y) = (x < y)"
| "jless NInf NInf = False"
| "jless NInf _ = True"
| "jless _ NInf = False"
| "jless PInf _ = False"
| "jless (Fin x) PInf = True"

definition jle :: "jsnum \<Rightarrow> jsnum \<Rightarrow> bool" where
  "jle x y \<longleftrightarrow> x \<noteq> NaN \<and> y \<noteq> NaN \<and> (x = y \<or> jless x y)"

text \<open>
  A sign and the rest of the string: \<open>True\<close> for a leading \<^verbatim>\<open>-\<close>.
\<close>

definition signed_part :: "string \<Rightarrow> bool \<times> string" where
  "signed_part s =
     (case s of
        [] \<Rightarrow> (False, [])
      | c # cs \<Rightarrow>
          if c = CHR ''-'' then (True, cs)
          else if c = CHR ''+'' then (False, cs)
          else (False, s))"

text \<open>
  The exponent part of a decimal literal: nothing (exponent 0), or \<^verbatim>\<open>e\<close> or \<^verbatim>\<open>E\<close>, an
  optional sign and at least one digit. \<open>None\<close>: the rest of the string is no
  exponent part.
\<close>

definition exponent_part :: "string \<Rightarrow> int option" where
  "exponent_part s =
     (case s of
        [] \<Rightarrow> Some 0
      | c # cs \<Rightarrow>
          if c = CHR ''e'' \<or> c = CHR ''E'' then
            (let (neg, ds) = signed_part cs
             in if ds \<noteq> [] \<and> list_all is_digit ds
                then Some (if neg then - radix_val 10 ds else radix_val 10 ds)
                else None)
          else None)"

text \<open>
  The mathematical value of an unsigned decimal literal: digits, an optional point with
  optional digits after it (at least one digit in all), an optional exponent part.
\<close>

definition unsigned_decimal :: "string \<Rightarrow> rat option" where
  "unsigned_decimal s =
     (let ip = takeWhile is_digit s;
          r1 = dropWhile is_digit s;
          has_dot = (case r1 of [] \<Rightarrow> False | c # _ \<Rightarrow> c = CHR ''.'');
          fp = (if has_dot then takeWhile is_digit (tl r1) else []);
          r2 = (if has_dot then dropWhile is_digit (tl r1) else r1)
      in if ip = [] \<and> fp = [] then None
         else (case exponent_part r2 of
                 None \<Rightarrow> None
               | Some e \<Rightarrow> Some (of_int (radix_val 10 (ip @ fp)) * 10 powi (e - int (length fp)))))"

text \<open>
  A binary, octal or hexadecimal integer literal: \<^verbatim>\<open>0b\<close>, \<^verbatim>\<open>0o\<close>, \<^verbatim>\<open>0x\<close> (either
  case) and at least one digit of the radix; no sign.
\<close>

definition non_decimal :: "string \<Rightarrow> int option" where
  "non_decimal s =
     (case s of
        z # x # ds \<Rightarrow>
          (let r = (if x = CHR ''x'' \<or> x = CHR ''X'' then 16
                    else if x = CHR ''o'' \<or> x = CHR ''O'' then 8
                    else if x = CHR ''b'' \<or> x = CHR ''B'' then 2
                    else (0::int))
           in if z = CHR ''0'' \<and> r \<noteq> 0 \<and> ds \<noteq> [] \<and> list_all (is_radix_digit r) ds
              then Some (radix_val r ds) else None)
      | _ \<Rightarrow> None)"

text \<open>
  \<^verbatim>\<open>Number(s)\<close> on a string: white space is trimmed, the empty string is 0, a numeric
  literal is rounded to a double, anything else is NaN.
\<close>

definition Number :: "string \<Rightarrow> jsnum" where
  "Number s =
     (let t = trim s
      in if t = [] then Fin 0
         else (case non_decimal t of
                 Some n \<Rightarrow> to_double (of_int n)
               | None \<Rightarrow>
                   (let (neg, u) = signed_part t
                    in if u = ''Infinity'' then (if neg then NInf else PInf)
                       else (case unsigned_decimal u of
                               None \<Rightarrow> NaN
                             | Some q \<Rightarrow> to_double (if neg then - q else q)))))"

text \<open>
  \<^verbatim>\<open>parseInt(s, radix)\<close>; \<open>None\<close> is an omitted radix. Leading white space and a sign
  are skipped, \<^verbatim>\<open>0x\<close> is stripped when the radix is omitted or 16, and the longest
  prefix of digits of the radix is read; NaN when there is none.
\<close>

definition parseInt :: "string \<Rightarrow> int option \<Rightarrow> jsnum" where
  "parseInt s radix =
     (let (neg, t) = signed_part (trim_start s);
          r0 = (case radix of None \<Rightarrow> 0 | Some r \<Rightarrow> r);
          hex = ((r0 = 0 \<or> r0 = 16) \<and> (take 2 t = ''0x'' \<or> take 2 t = ''0X''));
          r = (if hex then 16 else if r0 = 0 then 10 else r0);
          u = (if hex then drop 2 t else t);
          z = takeWhile (is_radix_digit r) u
      in if r < 2 \<or> 36 < r then NaN
         else if z = [] then NaN
         else to_double (if neg then - of_int (radix_val r z) else of_int (radix_val r z)))"

section \<open>utils.ts\<close>

text \<open>\<^verbatim>\<open>x || 0\<close> on a number or \<^verbatim>\<open>undefined\<close>: the falsy values are \<^verbatim>\<open>undefined\<close>, NaN and 0.\<close>

definition or_zero :: "jsnum option \<Rightarrow> jsnum" where
  "or_zero x = (case x of None \<Rightarrow> Fin 0 | Some v \<Rightarrow> if v = NaN \<or> v = Fin 0 then Fin 0 else v)"

text \<open>
  The \<^verbatim>\<open>for\<close> loop of \<^verbatim>\<open>compareVersions\<close>, from index \<open>i\<close>: \<^verbatim>\<open>aVal\<close> and \<^verbatim>\<open>bVal\<close>
  are \<^verbatim>\<open>aParts[i] || 0\<close> and \<^verbatim>\<open>bParts[i] || 0\<close>; the first pair that differs returns
  \<^verbatim>\<open>aVal - bVal\<close>.
\<close>

function compare_loop :: "jsnum list \<Rightarrow> jsnum list \<Rightarrow> nat \<Rightarrow> jsnum" where
  "compare_loop aParts bParts i =
     (if i < max (length aParts) (length bParts) then
        (if or_zero (at_index aParts i) \<noteq> or_zero (at_index bParts i)
         then jsub (or_zero (at_index aParts i)) (or_zero (at_index bParts i))
         else compare_loop aParts bParts (Suc i))
      else Fin 0)"
  by pat_completeness auto
termination
  by (relation "measure (\<lambda>(aParts, bParts, i). max (length aParts) (length bParts) - i)") auto

declare compare_loop.simps [simp del]

definition compareVersions :: "string \<Rightarrow> string \<Rightarrow> jsnum" where
  "compareVersions a b =
     compare_loop (map Number (split_on CHR ''.'' a)) (map Number (split_on CHR ''.'' b)) 0"

section \<open>cuda.ts: normalisation\<close>

text \<open>
  \<^verbatim>\<open>parts.slice(0, 2).join('.')\<close> for a major version of at most 10, the version itself
  otherwise, and when \<^verbatim>\<open>parseInt\<close> finds no number.
\<close>

definition normalizeCudaVersion :: "string \<Rightarrow> string" where
  "normalizeCudaVersion version =
     (let parts = split_on CHR ''.'' version;
          major = (case at_index parts 0 of None \<Rightarrow> NaN | Some p \<Rightarrow> parseInt p (Some 10))
      in if major = NaN then version
         else if jle major (Fin 10) then join ''.'' (take 2 parts)
         else version)"

section \<open>utils.ts: sorting\<close>

text \<open>
  \<^verbatim>\<open>versions.sort(compareVersions)\<close>. \<^verbatim>\<open>Array.prototype.sort\<close> is stable, and
  \<^verbatim>\<open>compareVersions\<close> is a consistent comparator (a total preorder, shown below), so
  the result is the one stable ascending arrangement; insertion sort computes it. An
  element moves behind another only when the comparator is positive on the pair.
\<close>

fun insert_version :: "string \<Rightarrow> string list \<Rightarrow> string list" where
  "insert_version v [] = [v]"
| "insert_version v (w # ws) =
     (if jless (Fin 0) (compareVersions v w) then w # insert_version v ws else v # w # ws)"

definition sortVersions :: "string list \<Rightarrow> string list" where
  "sortVersions versions = foldr insert_version versions []"

section \<open>const.ts\<close>

definition START_SUPPORTED_CUDA_VERSION :: string where
  "START_SUPPORTED_CUDA_VERSION = ''10.0''"

definition OLD_CUDA_VERSIONS :: "string list" where
  "OLD_CUDA_VERSIONS = [''10.0'', ''10.1'', ''10.1.1'', ''10.1.2'', ''10.2'']"

record CudaLink =
  md5sumUrl :: string
  linuxX86Url :: string
  linuxArm64Url :: string
  windowsUrl :: string

definition CUDA_LINKS_entries :: "(string \<times> CudaLink) list" where
  "CUDA_LINKS_entries =
    [(''10.0'',
      \<lparr>md5sumUrl = ''https://developer.download.nvidia.com/compute/cuda/10.0/Prod/docs/sidebar/md5sum.txt'',
       linuxX86Url = ''http://developer.download.nvidia.com/compute/cuda/10.0/Prod/patches/1/cuda_10.0.130.1_linux.run'',
       linuxArm64Url = '''',
       windowsUrl = ''https://developer.nvidia.com/compute/cuda/10.0/Prod/local_installers/cuda_10.0.130_411.31_win10''\<rparr>),
     (''10.1'',
      \<lparr>md5sumUrl = ''https://developer.download.nvidia.com/compute/cuda/10.1/Prod/docs/sidebar/md5sum.txt'',
       linuxX86Url = ''https://developer.nvidia.com/compute/cuda/10.1/Prod/local_installers/cuda_10.1.105_418.39_linux.run'',
       linuxArm64Url = '''',
       windowsUrl = ''https://developer.nvidia.com/compute/cuda/10.1/Prod/local_installers/cuda_10.1.105_418.96_win10.exe''\<rparr>),
     (''10.1.1'',
      \<lparr>md5sumUrl = ''https://developer.download.nvidia.com/compute/cuda/10.1/Prod/docs2/sidebar/md5sum-2.txt'',
       linuxX86Url = ''https://developer.nvidia.com/compute/cuda/10.1/Prod/local_installers/cuda_10.1.168_418.67_linux.run'',
       linuxArm64Url = '''',
       windowsUrl = ''https://developer.nvidia.com/compute/cuda/10.1/Prod/local_installers/cuda_10.1.168_425.25_win10.exe''\<rparr>),
     (''10.1.2'',
      \<lparr>md5sumUrl = ''https://developer.download.nvidia.com/compute/cuda/10.1/Prod/docs3/sidebar/md5sum.txt'',
       linuxX86Url = ''https://developer.download.nvidia.com/compute/cuda/10.1/Prod/local_installers/cuda_10.1.243_418.87.00_linux.run'',
       linuxArm64Url = '''',
       windowsUrl = ''https://developer.download.nvidia.com/compute/cuda/10.1/Prod/local_installers/cuda_10.1.243_426.00_win10.exe''\<rparr>),
     (''10.2'',
      \<lparr>md5sumUrl = ''https://developer.download.nvidia.com/compute/cuda/10.2/Prod/docs/sidebar/md5sum2.txt'',
       linuxX86Url = ''https://developer.download.nvidia.com/compute/cuda/10.2/Prod/patches/2/cuda_10.2.2_linux.run'',
       linuxArm64Url = '''',
       windowsUrl = ''https://developer.download.nvidia.com/compute/cuda/10.2/Prod/local_installers/cuda_10.2.89_441.22_win10.exe''\<rparr>)]"

text \<open>
  The table as the object \<^verbatim>\<open>CUDA_LINKS\<close>: \<open>CUDA_LINKS v\<close> is \<^verbatim>\<open>CUDA_LINKS[v]\<close>, \<open>None\<close>
  where the object has no such key. (The names an object inherits, such as
  \<^verbatim>\<open>toString\<close>, have no digits: the support check of \<^verbatim>\<open>getCudaInstallerUrl\<close>
  rejects them before the table is read.)
\<close>

definition CUDA_LINKS :: "string \<rightharpoonup> CudaLink" where
  "CUDA_LINKS = map_of CUDA_LINKS_entries"

section \<open>os_arch.ts\<close>

text \<open>
  Modelled from the spec: the file \<^verbatim>\<open>os_arch.ts\<close> that declares the enumerations
  \<^verbatim>\<open>OS\<close> and \<^verbatim>\<open>Arch\<close> is not among the sources. The spec names an operating system
  and a CPU architecture, and the code names the members \<^verbatim>\<open>LINUX\<close>, \<^verbatim>\<open>WINDOWS\<close>,
  \<^verbatim>\<open>X86_64\<close> and \<^verbatim>\<open>ARM64_SBSA\<close>; one more constructor of each type stands for any
  member the code does not name, which its final \<^verbatim>\<open>else\<close> branches provide for.
\<close>

datatype OS = LINUX | WINDOWS | OTHER_OS

datatype Arch = X86_64 | ARM64_SBSA | OTHER_ARCH

section \<open>HTTP\<close>

text \<open>
  The HTTP client is a collaborator: \<open>client url\<close> is what \<^verbatim>\<open>client.get(url)\<close>
  resolves to, or \<open>None\<close> when the request itself is rejected.
\<close>

record response =
  statusCode :: nat
  statusMessage :: string
  body :: string

type_synonym http_client = "string \<Rightarrow> response option"

datatype error =
    RequestRejected string
  | FetchFailed string nat string
  | UnsupportedVersion string
  | UnsupportedPlatform string
  | UnsupportedArchitecture Arch
  | NoMatchingInstaller string OS Arch
  | TypeError

text \<open>
  The common start of the fetch functions: the request, then the check of the status
  code. The error of a status other than 200 carries the URL, the code and the message.
\<close>

definition get_ok :: "http_client \<Rightarrow> string \<Rightarrow> error + string" where
  "get_ok client url =
     (case client url of
        None \<Rightarrow> Inl (RequestRejected url)
      | Some r \<Rightarrow>
          if statusCode r \<noteq> 200 then Inl (FetchFailed url (statusCode r) (statusMessage r))
          else Inr (body r))"

section \<open>cuda.ts: scraping version listings\<close>

text \<open>
  The regular expressions of the three listings are matched by hand-written recognisers.
  In each of them every repeated piece is a run of digits (or of white space) followed by
  a character that is no digit (no white space), so only the longest run can be followed
  by a match and backtracking never finds another one: reading greedily is complete.
\<close>

definition strip_prefix :: "string \<Rightarrow> string \<Rightarrow> string option" where
  "strip_prefix p s = (if take (length p) s = p then Some (drop (length p) s) else None)"

text \<open>\<^verbatim>\<open>[0-9]+\<close>: the digits read and the rest.\<close>

definition digits1 :: "string \<Rightarrow> (string \<times> string) option" where
  "digits1 s =
     (let d = takeWhile is_digit s
      in if d = [] then None else Some (d, dropWhile is_digit s))"

text \<open>Up to \<open>n\<close> groups \<^verbatim>\<open>(?:\.[0-9]+)?\<close> in a row: the text read and the rest.\<close>

fun dot_groups :: "nat \<Rightarrow> string \<Rightarrow> string \<times> string" where
  "dot_groups 0 s = ([], s)"
| "dot_groups (Suc n) s =
     (case s of
        [] \<Rightarrow> ([], s)
      | c # cs \<Rightarrow>
          if c = CHR ''.'' then
            (case digits1 cs of
               None \<Rightarrow> ([], s)
             | Some (d, r) \<Rightarrow> (let (t, r') = dot_groups n r in (c # d @ t, r')))
          else ([], s))"

text \<open>\<^verbatim>\<open>[0-9]+\.[0-9]+\<close> and up to \<open>n\<close> further groups \<^verbatim>\<open>(?:\.[0-9]+)?\<close>.\<close>

definition version_token :: "nat \<Rightarrow> string \<Rightarrow> (string \<times> string) option" where
  "version_token n s =
     (case digits1 s of
        None \<Rightarrow> None
      | Some (d1, r1) \<Rightarrow>
          (case strip_prefix ''.'' r1 of
             None \<Rightarrow> None
           | Some r1' \<Rightarrow>
               (case digits1 r1' of
                  None \<Rightarrow> None
                | Some (d2, r2) \<Rightarrow>
                    (let (t, r3) = dot_groups n r2 in Some (d1 @ ''.'' @ d2 @ t, r3)))))"

text \<open>
  The loop \<^verbatim>\<open>while ((match = pattern.exec(html)) !== null)\<close> of a global pattern:
  \<open>m s\<close> matches the pattern at the start of \<open>s\<close> and yields what the loop body
  collects and the length of the match (at least 1). The search resumes behind each
  match; \<open>skip\<close> counts the code units of the last match still to be passed.
\<close>

fun exec_all :: "(string \<Rightarrow> ('a \<times> nat) option) \<Rightarrow> nat \<Rightarrow> string \<Rightarrow> 'a list" where
  "exec_all m skip [] = []"
| "exec_all m (Suc skip) (c # cs) = exec_all m skip cs"
| "exec_all m 0 (c # cs) =
     (case m (c # cs) of
        None \<Rightarrow> exec_all m 0 cs
      | Some (x, n) \<Rightarrow> x # exec_all m (n - 1) cs)"

text \<open>\<^verbatim>\<open>new Set\<close> and \<^verbatim>\<open>add\<close>: the elements in the order of their first insertion.\<close>

definition set_add :: "string list \<Rightarrow> string \<Rightarrow> string list" where
  "set_add xs v = (if v \<in> set xs then xs else xs @ [v])"

definition set_add_all :: "string list \<Rightarrow> string list \<Rightarrow> string list" where
  "set_add_all xs vs = foldl set_add xs vs"

text \<open>\<^verbatim>\<open>/redistrib_([0-9]+\.[0-9]+(?:\.[0-9]+)?(?:\.[0-9]+)?)\.json/g\<close>\<close>

definition redistribPattern :: "string \<Rightarrow> (string \<times> nat) option" where
  "redistribPattern s =
     (case strip_prefix ''redistrib_'' s of
        None \<Rightarrow> None
      | Some r \<Rightarrow>
          (case version_token 2 r of
             None \<Rightarrow> None
           | Some (v, r') \<Rightarrow>
               (case strip_prefix ''.json'' r' of
                  None \<Rightarrow> None
                | Some _ \<Rightarrow> Some (v, length ''redistrib_'' + length v + length ''.json''))))"

definition fetchRedistribVersions :: "http_client \<Rightarrow> error + string list" where
  "fetchRedistribVersions client =
     (case get_ok client ''https://developer.download.nvidia.com/compute/cuda/redist/'' of
        Inl e \<Rightarrow> Inl e
      | Inr html \<Rightarrow> Inr (sortVersions (set_add_all [] (exec_all redistribPattern 0 html))))"

text \<open>
  \<^verbatim>\<open>/CUDA Toolkit\s+(\d+\.\d+(?:\.\d+)?)/gi\<close>: the letters match in either case.
\<close>

definition to_lower :: "char \<Rightarrow> char" where
  "to_lower c =
     (case map_of (zip ''ABCDEFGHIJKLMNOPQRSTUVWXYZ'' ''abcdefghijklmnopqrstuvwxyz'') c of
        None \<Rightarrow> c
      | Some l \<Rightarrow> l)"

definition pattern1 :: "string \<Rightarrow> (string \<times> nat) option" where
  "pattern1 s =
     (if map to_lower (take (length ''CUDA Toolkit'') s) = ''cuda toolkit'' then
        (let r = drop (length ''CUDA Toolkit'') s;
             ws = takeWhile is_space r
         in if ws = [] then None
            else (case version_token 1 (dropWhile is_space r) of
                    None \<Rightarrow> None
                  | Some (v, _) \<Rightarrow> Some (v, length ''CUDA Toolkit'' + length ws + length v)))
      else None)"

text \<open>
  \<^verbatim>\<open>/cuda-(\d+)-(\d+)(?:-(\d+))?-/g\<close>, with what the loop body makes of the groups:
  three components when the third group took part in the match, two otherwise.
\<close>

definition pattern2 :: "string \<Rightarrow> (string \<times> nat) option" where
  "pattern2 s =
     (case strip_prefix ''cuda-'' s of
        None \<Rightarrow> None
      | Some r \<Rightarrow>
          (case digits1 r of
             None \<Rightarrow> None
           | Some (m1, r1) \<Rightarrow>
               (case strip_prefix ''-'' r1 of
                  None \<Rightarrow> None
                | Some r1' \<Rightarrow>
                    (case digits1 r1' of
                       None \<Rightarrow> None
                     | Some (m2, r2) \<Rightarrow>
                         (case strip_prefix ''-'' r2 of
                            None \<Rightarrow> None
                          | Some r2' \<Rightarrow>
                              (case digits1 r2' of
                                 None \<Rightarrow> Some (m1 @ ''.'' @ m2, 5 + length m1 + 1 + length m2 + 1)
                               | Some (m3, r3) \<Rightarrow>
                                   (case strip_prefix ''-'' r3 of
                                      None \<Rightarrow> Some (m1 @ ''.'' @ m2, 5 + length m1 + 1 + length m2 + 1)
                                    | Some _ \<Rightarrow>
                                        Some (m1 @ ''.'' @ m2 @ ''.'' @ m3,
                                              5 + length m1 + 1 + length m2 + 1 + length m3 + 1))))))))"

definition fetchArchiveVersions :: "http_client \<Rightarrow> error + string list" where
  "fetchArchiveVersions client =
     (case get_ok client ''https://developer.nvidia.com/cuda-toolkit-archive'' of
        Inl e \<Rightarrow> Inl e
      | Inr html \<Rightarrow>
          Inr (sortVersions
                (set_add_all (set_add_all [] (exec_all pattern1 0 html)) (exec_all pattern2 0 html))))"

text \<open>\<^verbatim>\<open>/>([0-9]+\.[0-9]+(?:\.[0-9]+)?)\//g\<close>\<close>

definition versionPattern :: "string \<Rightarrow> (string \<times> nat) option" where
  "versionPattern s =
     (case strip_prefix ''>'' s of
        None \<Rightarrow> None
      | Some r \<Rightarrow>
          (case version_token 1 r of
             None \<Rightarrow> None
           | Some (v, r') \<Rightarrow>
               (case strip_prefix ''/'' r' of
                  None \<Rightarrow> None
                | Some _ \<Rightarrow> Some (v, 1 + length v + 1))))"

definition fetchOpensourceVersions :: "http_client \<Rightarrow> error + string list" where
  "fetchOpensourceVersions client =
     (case get_ok client ''https://developer.download.nvidia.com/compute/cuda/opensource/'' of
        Inl e \<Rightarrow> Inl e
      | Inr html \<Rightarrow>
          Inr (sortVersions
                (set_add_all [] (map normalizeCudaVersion (exec_all versionPattern 0 html)))))"

section \<open>cuda.ts: the catalog\<close>

text \<open>
  \<^verbatim>\<open>Promise.all\<close> rejects as soon as one of the three fetches does; when several fail
  the model reports the first in the order of the array.
\<close>

definition fetchAvailableCudaVersions :: "http_client \<Rightarrow> error + string list" where
  "fetchAvailableCudaVersions client =
     (case fetchRedistribVersions client of
        Inl e \<Rightarrow> Inl e
      | Inr redistribVersions \<Rightarrow>
          (case fetchArchiveVersions client of
             Inl e \<Rightarrow> Inl e
           | Inr archiveVersions \<Rightarrow>
               (case fetchOpensourceVersions client of
                  Inl e \<Rightarrow> Inl e
                | Inr opensourceVersions \<Rightarrow>
                    (let allVersions =
                           set_add_all []
                             (redistribVersions @ archiveVersions @ opensourceVersions
                              @ OLD_CUDA_VERSIONS);
                         versions = sortVersions allVersions
                     in Inr (filter
                              (\<lambda>version.
                                 jle (Fin 0) (compareVersions version START_SUPPORTED_CUDA_VERSION))
                              versions)))))"

section \<open>cuda.ts: resolving a specifier\<close>

text \<open>
  The body of \<^verbatim>\<open>findCudaVersion\<close> behind the fetch. \<open>None\<close> is \<^verbatim>\<open>undefined\<close>;
  \<^verbatim>\<open>versions[versions.length - 1]\<close> reads index \<open>-1\<close> of an empty array, which is
  \<^verbatim>\<open>undefined\<close> too.
\<close>

definition at_int :: "'a list \<Rightarrow> int \<Rightarrow> 'a option" where
  "at_int xs i = (if 0 \<le> i then at_index xs (nat i) else None)"

definition match_version :: "string list \<Rightarrow> string \<Rightarrow> string option" where
  "match_version versions inputVersion =
     (if inputVersion = ''latest'' then at_int versions (int (length versions) - 1)
      else if inputVersion \<in> set versions then Some inputVersion
      else
        (let prefix = inputVersion @ ''.'';
             matchingVersions = filter (\<lambda>v. take (length prefix) v = prefix) versions
         in if length matchingVersions > 0
            then at_int matchingVersions (int (length matchingVersions) - 1)
            else None))"

definition findCudaVersion :: "http_client \<Rightarrow> string \<Rightarrow> error + string option" where
  "findCudaVersion client inputVersion =
     (case fetchAvailableCudaVersions client of
        Inl e \<Rightarrow> Inl e
      | Inr versions \<Rightarrow> Inr (match_version versions inputVersion))"

section \<open>cuda.ts: the checksum manifest\<close>

definition getDownloadUrl :: "string \<Rightarrow> string \<Rightarrow> string \<Rightarrow> string" where
  "getDownloadUrl version dir filename =
     ''https://developer.download.nvidia.com/compute/cuda/'' @ version @ ''/'' @ dir @ ''/'' @ filename"

text \<open>
  \<^verbatim>\<open>parseInt(version.split('.')[0])\<close>, the major version both \<^verbatim>\<open>getMd5sumUrl\<close> and
  \<^verbatim>\<open>getCudaInstallerUrl\<close> compute (the radix is omitted).
\<close>

definition major_of :: "string \<Rightarrow> jsnum" where
  "major_of version =
     (case at_index (split_on CHR ''.'' version) 0 of
        None \<Rightarrow> NaN
      | Some p \<Rightarrow> parseInt p None)"

text \<open>
  The legacy table is the first argument of the functions that read the constant
  \<^verbatim>\<open>CUDA_LINKS\<close>; the program is the instance \<open>links = CUDA_LINKS\<close>. Reading a field
  of \<^verbatim>\<open>CUDA_LINKS[version]\<close> when the table has no such key throws a TypeError.
\<close>

definition getMd5sumUrl :: "(string \<rightharpoonup> CudaLink) \<Rightarrow> string \<Rightarrow> error + string" where
  "getMd5sumUrl links version =
     (let major_version = major_of version
      in if jle (Fin 11) major_version
         then Inr (''https://developer.download.nvidia.com/compute/cuda/'' @ version
                   @ ''/docs/sidebar/md5sum.txt'')
         else (case links version of
                 None \<Rightarrow> Inl TypeError
               | Some link \<Rightarrow> Inr (md5sumUrl link)))"

text \<open>
  The object \<^verbatim>\<open>md5sums\<close> is an association list in the order of insertion.
  \<^verbatim>\<open>md5sums[filename] = md5sum\<close> overwrites the value of a key that is present and
  appends a new key; the key of \<^verbatim>\<open>undefined\<close> is the string \<^verbatim>\<open>undefined\<close>; and a
  string assigned to \<^verbatim>\<open>__proto__\<close> is dropped by the inherited setter.
\<close>

fun obj_put :: "(string \<times> string) list \<Rightarrow> string \<Rightarrow> string \<Rightarrow> (string \<times> string) list" where
  "obj_put [] k v = [(k, v)]"
| "obj_put ((k', v') # kvs) k v = (if k' = k then (k, v) # kvs else (k', v') # obj_put kvs k v)"

definition obj_assign :: "(string \<times> string) list \<Rightarrow> string option \<Rightarrow> string \<Rightarrow> (string \<times> string) list" where
  "obj_assign obj key v =
     (let k = (case key of None \<Rightarrow> ''undefined'' | Some k \<Rightarrow> k)
      in if k = ''__proto__'' then obj else obj_put obj k v)"

text \<open>
  \<^verbatim>\<open>Object.entries\<close> lists the keys that are array indices first, in ascending
  numeric order, and then the other keys in the order of insertion. An array index is
  the canonical decimal numeral of an integer from 0 to \<open>2\<^sup>3\<^sup>2 - 2\<close>.
\<close>

definition is_array_index :: "string \<Rightarrow> bool" where
  "is_array_index k \<longleftrightarrow>
     k \<noteq> [] \<and> list_all is_digit k \<and> (k = ''0'' \<or> take 1 k \<noteq> ''0'')
     \<and> radix_val 10 k \<le> 4294967294"

definition Object_entries :: "(string \<times> string) list \<Rightarrow> (string \<times> string) list" where
  "Object_entries obj =
     sort_key (\<lambda>(k, v). radix_val 10 k) (filter (\<lambda>(k, v). is_array_index k) obj)
     @ filter (\<lambda>(k, v). \<not> is_array_index k) obj"

text \<open>
  The loop of \<^verbatim>\<open>fetchMd5sum\<close> over the lines: \<^verbatim>\<open>[md5sum, filename] = line.split(' ')\<close>
  takes the first two pieces (the second is \<^verbatim>\<open>undefined\<close> when the line has no space).
\<close>

definition parse_md5sums :: "string \<Rightarrow> (string \<times> string) list" where
  "parse_md5sums text =
     foldl (\<lambda>md5sums line.
              (let pieces = split_on CHR '' '' line
               in case at_index pieces 0 of
                    None \<Rightarrow> md5sums
                  | Some md5sum \<Rightarrow> obj_assign md5sums (at_index pieces 1) md5sum))
           [] (split_on (CHR 0x0A) text)"

text \<open>
  The result of an asynchronous function with its requests: the URLs requested, in
  order, and the outcome.
\<close>

definition fetchMd5sum ::
  "(string \<rightharpoonup> CudaLink) \<Rightarrow> http_client \<Rightarrow> string \<Rightarrow> string list \<times> (error + (string \<times> string) list)" where
  "fetchMd5sum links client version =
     (case getMd5sumUrl links version of
        Inl e \<Rightarrow> ([], Inl e)
      | Inr url \<Rightarrow>
          (case get_ok client url of
             Inl e \<Rightarrow> ([url], Inl e)
           | Inr text \<Rightarrow> ([url], Inr (parse_md5sums text))))"

section \<open>cuda.ts: locating the installer\<close>

text \<open>
  \<^verbatim>\<open>filename.match(pattern)\<close> for the pattern
  \<^verbatim>\<open>cuda_<version>_\d+\.\d+(\.\d+)?<tail>\<close>, where \<open>tail\<close> is \<^verbatim>\<open>_linux\.run\<close> or
  \<^verbatim>\<open>_linux_sbsa\.run\<close>: the pattern is not anchored, so it matches when it matches at
  some position of the file name. The code escapes the dots of \<open>version\<close> and nothing
  else, so the version is read here as literal text: this is the code's pattern for
  every version without a character that is special in a regular expression (any of
  \<^verbatim>\<open>\ ^ $ * + ? ( ) [ ] { } |\<close>), in particular for digits and dots.
\<close>

definition match_at :: "string \<Rightarrow> string \<Rightarrow> string \<Rightarrow> bool" where
  "match_at version tail s =
     (case strip_prefix (''cuda_'' @ version @ ''_'') s of
        None \<Rightarrow> False
      | Some r \<Rightarrow>
          (case version_token 1 r of
             None \<Rightarrow> False
           | Some (driver, r') \<Rightarrow> strip_prefix tail r' \<noteq> None))"

definition pattern_matches :: "string \<Rightarrow> string \<Rightarrow> string \<Rightarrow> bool" where
  "pattern_matches version tail filename = list_ex (match_at version tail) (suffixes filename)"

text \<open>
  The loop over \<^verbatim>\<open>Object.entries(md5sums)\<close> of the Linux branch: the first file name
  that matches, \<open>None\<close> (\<^verbatim>\<open>undefined\<close>) when none does.
\<close>

fun linux_scan :: "string \<Rightarrow> string \<Rightarrow> string list \<Rightarrow> string option" where
  "linux_scan version tail [] = None"
| "linux_scan version tail (filename # rest) =
     (if pattern_matches version tail filename then Some filename
      else linux_scan version tail rest)"

text \<open>
  The loop of the Windows branch, with the variable \<^verbatim>\<open>win10Filename\<close> as accumulator:
  the pair of \<^verbatim>\<open>windowsFilename\<close> and \<^verbatim>\<open>win10Filename\<close> when the loop ends.
\<close>

fun windows_scan :: "string list \<Rightarrow> string option \<Rightarrow> string option \<times> string option" where
  "windows_scan [] win10Filename = (None, win10Filename)"
| "windows_scan (filename # rest) win10Filename =
     (if suffix ''_windows.exe'' filename then (Some filename, win10Filename)
      else if suffix ''_win10.exe'' filename then windows_scan rest (Some filename)
      else windows_scan rest win10Filename)"

text \<open>\<^verbatim>\<open>a || b\<close> on file names or \<^verbatim>\<open>undefined\<close>: the empty string is falsy too.\<close>

definition or_else :: "string option \<Rightarrow> string option \<Rightarrow> string option" where
  "or_else a b = (case a of None \<Rightarrow> b | Some x \<Rightarrow> if x = [] then b else a)"

text \<open>Lines 292 to 338: the path through the checksum manifest.\<close>

definition locate_by_manifest ::
  "(string \<rightharpoonup> CudaLink) \<Rightarrow> http_client \<Rightarrow> string \<Rightarrow> OS \<Rightarrow> Arch \<Rightarrow> string list \<times> (error + string)" where
  "locate_by_manifest links client version os arch =
     (case fetchMd5sum links client version of
        (requests, Inl e) \<Rightarrow> (requests, Inl e)
      | (requests, Inr md5sums) \<Rightarrow>
          (let filenames = map fst (Object_entries md5sums);
               found =
                 (if os = LINUX then
                    (if arch = X86_64 then Inr (linux_scan version ''_linux.run'' filenames)
                     else if arch = ARM64_SBSA then Inr (linux_scan version ''_linux_sbsa.run'' filenames)
                     else Inl (UnsupportedArchitecture arch))
                  else if os = WINDOWS then
                    (case windows_scan filenames None of
                       (windowsFilename, win10Filename) \<Rightarrow> Inr (or_else windowsFilename win10Filename))
                  else Inr None)
           in case found of
                Inl e \<Rightarrow> (requests, Inl e)
              | Inr targetFilename \<Rightarrow>
                  (case or_else targetFilename None of
                     None \<Rightarrow> (requests, Inl (NoMatchingInstaller version os arch))
                   | Some filename \<Rightarrow>
                       (requests, Inr (getDownloadUrl version ''local_installers'' filename)))))"

text \<open>Lines 283 to 289: the fallback for CUDA 10 and earlier, then the manifest.\<close>

definition locate_after_table ::
  "(string \<rightharpoonup> CudaLink) \<Rightarrow> http_client \<Rightarrow> string \<Rightarrow> OS \<Rightarrow> Arch \<Rightarrow> string list \<times> (error + string)" where
  "locate_after_table links client version os arch =
     (let majorVersion = major_of version
      in if jle majorVersion (Fin 10) \<and> os = LINUX \<and> arch = X86_64 then
           (case links version of
              None \<Rightarrow> ([], Inl TypeError)
            | Some link \<Rightarrow> ([], Inr (linuxX86Url link)))
         else if jle majorVersion (Fin 10) \<and> os = WINDOWS then
           (case links version of
              None \<Rightarrow> ([], Inl TypeError)
            | Some link \<Rightarrow> ([], Inr (windowsUrl link)))
         else locate_by_manifest links client version os arch)"

text \<open>
  Lines 270 to 281: the URL of the table for the pair of \<open>os\<close> and \<open>arch\<close>, \<open>None\<close>
  when the table has no entry for the version or the field is empty.
\<close>

definition table_url :: "(string \<rightharpoonup> CudaLink) \<Rightarrow> string \<Rightarrow> OS \<Rightarrow> Arch \<Rightarrow> string option" where
  "table_url links version os arch =
     (case links version of
        None \<Rightarrow> None
      | Some link \<Rightarrow>
          if os = LINUX \<and> arch = X86_64 \<and> linuxX86Url link \<noteq> [] then Some (linuxX86Url link)
          else if os = LINUX \<and> arch = ARM64_SBSA \<and> linuxArm64Url link \<noteq> [] then Some (linuxArm64Url link)
          else if os = WINDOWS \<and> windowsUrl link \<noteq> [] then Some (windowsUrl link)
          else None)"

definition getCudaInstallerUrl ::
  "(string \<rightharpoonup> CudaLink) \<Rightarrow> http_client \<Rightarrow> string \<Rightarrow> OS \<Rightarrow> Arch \<Rightarrow> string list \<times> (error + string)" where
  "getCudaInstallerUrl links client version os arch =
     (if jless (compareVersions version START_SUPPORTED_CUDA_VERSION) (Fin 0)
      then ([], Inl (UnsupportedVersion version))
      else
        (let majorVersion = major_of version
         in if jle majorVersion (Fin 10) \<and> os = LINUX \<and> arch = ARM64_SBSA
            then ([], Inl (UnsupportedPlatform version))
            else (case table_url links version os arch of
                    Some url \<Rightarrow> ([], Inr url)
                  | None \<Rightarrow> locate_after_table links client version os arch)))"

section \<open>Values that are doubles\<close>

text \<open>
  Every finite double is a multiple of \<open>2 powi (- 1074)\<close>, the least positive double.
  \<open>is_double\<close> holds of the infinities and of such multiples; it is what the rounding
  and the difference of two numbers are shown to preserve.
\<close>

definition is_double :: "jsnum \<Rightarrow> bool" where
  "is_double x =
     (case x of
        NaN \<Rightarrow> False
      | Fin v \<Rightarrow> of_int \<lfloor>v * 2 ^ 1074\<rfloor> = v * 2 ^ 1074
      | _ \<Rightarrow> True)"

text \<open>
  The component a version has at index \<open>i\<close> as \<^verbatim>\<open>compareVersions\<close> reads it:
  \<^verbatim>\<open>parts[i] || 0\<close>.
\<close>

definition part_at :: "jsnum list \<Rightarrow> nat \<Rightarrow> jsnum" where
  "part_at ps i = or_zero (at_index ps i)"

section \<open>The order of the comparator\<close>

text \<open>
  \<open>parts_less a b\<close>: at the first index where the components of \<open>a\<close> and \<open>b\<close> differ,
  with 0 for a missing component, the one of \<open>a\<close> is the smaller. The comparator is
  negative exactly then.
\<close>

definition parts_less :: "jsnum list \<Rightarrow> jsnum list \<Rightarrow> bool" where
  "parts_less a b \<longleftrightarrow>
     (\<exists>k < max (length a) (length b).
        (\<forall>j < k. part_at a j = part_at b j) \<and> jless (part_at a k) (part_at b k))"

text \<open>\<^verbatim>\<open>compareVersions(a, b) <= 0\<close>: \<open>a\<close> may stand before \<open>b\<close> in a sorted array.\<close>

definition version_le :: "string \<Rightarrow> string \<Rightarrow> bool" where
  "version_le a b \<longleftrightarrow> \<not> jless (Fin 0) (compareVersions a b)"

text \<open>
  The loop of \<^verbatim>\<open>compareVersions\<close> by recursion on the two arrays: it is shown equal to
  \<open>compare_loop\<close> from index 0, and used to evaluate the comparator.
\<close>

fun compare_parts :: "jsnum list \<Rightarrow> jsnum list \<Rightarrow> jsnum" where
  "compare_parts [] [] = Fin 0"
| "compare_parts (x # xs) [] =
     (if or_zero (Some x) \<noteq> Fin 0 then jsub (or_zero (Some x)) (Fin 0)
      else compare_parts xs [])"
| "compare_parts [] (y # ys) =
     (if Fin 0 \<noteq> or_zero (Some y) then jsub (Fin 0) (or_zero (Some y))
      else compare_parts [] ys)"
| "compare_parts (x # xs) (y # ys) =
     (if or_zero (Some x) \<noteq> or_zero (Some y) then jsub (or_zero (Some x)) (or_zero (Some y))
      else compare_parts xs ys)"

section \<open>Examples\<close>

text \<open>A client whose every request succeeds with the same body, for the examples.\<close>

definition example_client :: "string \<Rightarrow> http_client" where
  "example_client b = (\<lambda>url. Some \<lparr>statusCode = 200, statusMessage = ''OK'', body = b\<rparr>)"

section \<open>The comparator as the specification words it\<close>





section \<open>Rounding to doubles\<close>

lemma round_even_of_int: "round_even (of_int k) = k"
  by (simp add: round_even_def)

lemma round_even_error: "\<bar>of_int (round_even x) - x\<bar> \<le> 1 / 2"
  using of_int_floor_le [of x] floor_correct [of x]
  by (auto simp: round_even_def Let_def)

lemma round_even_minus: "round_even (- x) = - round_even x"
proof (cases "x = of_int \<lfloor>x\<rfloor>")
  case True
  then obtain k :: int where "x = of_int k" ..
  then have "- x = of_int (- k)" by simp
  then show ?thesis using \<open>x = of_int k\<close> round_even_of_int by metis
next
  case False
  have lo: "of_int \<lfloor>x\<rfloor> < x" by (rule le_neq_trans [OF of_int_floor_le not_sym [OF False]])
  have hi: "x < of_int \<lfloor>x\<rfloor> + 1" using floor_correct [of x] by simp
  have fl: "\<lfloor>- x\<rfloor> = - \<lfloor>x\<rfloor> - 1"
    using lo hi by (intro floor_unique) auto
  show ?thesis
    using lo hi by (auto simp: round_even_def Let_def fl)
qed

lemma two_powi_pos: "0 < (2::rat) powi e"
  by (simp add: zero_less_power_int)

lemma ilog2_lower: assumes "0 < q" shows "2 powi (ilog2 q) \<le> q"
proof -
  obtain n d where nd: "quotient_of q = (n, d)" by (cases "quotient_of q")
  have d: "0 < d" using nd quotient_of_denom_pos by blast
  have q: "q = of_int n / of_int d" using nd quotient_of_div by blast
  have n: "0 < n" using assms d q by (simp add: zero_less_divide_iff)
  let ?k = "bitlen n - bitlen d"
  have bn: "2 ^ nat (bitlen n - 1) \<le> n" using bitlen_bounds [OF n] by simp
  have bd: "d < 2 ^ nat (bitlen d)" using bitlen_bounds [OF d] by simp
  have bn1: "1 \<le> bitlen n" using n by (simp add: bitlen_def floorlog_def)
  have bd0: "0 \<le> bitlen d" by (simp add: bitlen_def)
  have "(2::rat) powi (?k - 1) = 2 powi (bitlen n - 1) / 2 powi (bitlen d)"
    by (simp add: power_int_diff)
  also have "\<dots> = 2 ^ nat (bitlen n - 1) / 2 ^ nat (bitlen d)"
    using bn1 bd0 by (simp add: power_int_def)
  also have "\<dots> \<le> of_int n / of_int d"
  proof -
    have a: "(2::rat) ^ nat (bitlen n - 1) \<le> of_int n"
      using bn by (metis of_int_le_iff of_int_numeral of_int_power)
    have b: "(of_int d :: rat) \<le> 2 ^ nat (bitlen d)"
      using bd by (metis less_imp_le of_int_le_iff of_int_numeral of_int_power)
    have c: "(0::rat) < of_int d" using d by simp
    have c': "(0::rat) \<le> of_int n" using n by simp
    show ?thesis using a b c c' by (intro frac_le) auto
  qed
  finally have low: "(2::rat) powi (?k - 1) \<le> q" using q by simp
  show ?thesis
    using low by (simp add: ilog2_def nd Let_def)
qed

lemma to_double_of_int:
  assumes "\<bar>k\<bar> < 2 ^ 53"
  shows "to_double (of_int k) = Fin (of_int k)"
proof (cases "k = 0")
  case True
  then show ?thesis by (simp add: to_double_def)
next
  case False
  define e where "e = max (ilog2 \<bar>of_int k\<bar>) (- 1022) - 52"
  have kpos: "(0::rat) < \<bar>of_int k\<bar>" using False by simp
  have "(2::rat) powi (ilog2 \<bar>of_int k\<bar>) \<le> \<bar>of_int k\<bar>" by (rule ilog2_lower [OF kpos])
  also have "\<dots> < 2 ^ 53"
  proof -
    have "(of_int \<bar>k\<bar> :: rat) < of_int (2 ^ 53)" using assms by (simp only: of_int_less_iff)
    then show ?thesis by simp
  qed
  finally have "(2::rat) powi (ilog2 \<bar>of_int k\<bar>) < 2 powi 53" by simp
  then have "ilog2 \<bar>of_int k :: rat\<bar> < 53"
    by (rule power_int_le_imp_less_exp [rotated]) simp_all
  then have e: "e \<le> 0" by (simp add: e_def)
  have pe: "(2::rat) powi e = 1 / 2 ^ nat (- e)"
    using e by (cases "e = 0") (simp_all add: power_int_def field_simps)
  have x: "(of_int k :: rat) / 2 powi e = of_int (k * 2 ^ nat (- e))"
    by (simp add: pe)
  have v: "of_int (round_even (of_int k / 2 powi e)) * (2::rat) powi e = of_int k"
    by (simp only: x round_even_of_int) (simp add: pe)
  have b: "\<bar>of_int k :: rat\<bar> < 2 ^ 1024"
  proof -
    have "(of_int \<bar>k\<bar> :: rat) < of_int (2 ^ 53)" using assms by (simp only: of_int_less_iff)
    then have "\<bar>of_int k :: rat\<bar> < 2 ^ 53" by simp
    also have "(2::rat) ^ 53 \<le> 2 ^ 1024" by (rule power_increasing) simp_all
    finally show ?thesis .
  qed
  show ?thesis
    using False b unfolding to_double_def e_def [symmetric] Let_def v by auto
qed

lemma to_double_minus:
  "to_double (- q) = (case to_double q of NaN \<Rightarrow> NaN | NInf \<Rightarrow> PInf | Fin v \<Rightarrow> Fin (- v) | PInf \<Rightarrow> NInf)"
proof (cases "q = 0")
  case True
  then show ?thesis by (simp add: to_double_def)
next
  case False
  define e where "e = max (ilog2 \<bar>q\<bar>) (- 1022) - 52"
  define v where "v = of_int (round_even (q / 2 powi e)) * (2::rat) powi e"
  have m: "of_int (round_even (- q / 2 powi e)) * (2::rat) powi e = - v"
    by (simp add: v_def round_even_minus)
  have pos: "(0::rat) < 2 ^ 1024" by simp
  have l: "to_double q = (if 2 ^ 1024 \<le> v then PInf else if v \<le> - (2 ^ 1024) then NInf else Fin v)"
    using False by (simp add: to_double_def e_def v_def Let_def)
  have r: "to_double (- q) = (if 2 ^ 1024 \<le> - v then PInf else if - v \<le> - (2 ^ 1024) then NInf else Fin (- v))"
    using False m by (simp add: to_double_def e_def Let_def)
  show ?thesis
    unfolding l r using pos by (auto simp del: zero_less_power)
qed

lemma grid_iff:
  fixes v :: rat
  shows "of_int \<lfloor>v * 2 ^ 1074\<rfloor> = v * 2 ^ 1074 \<longleftrightarrow> (\<exists>m::int. v = of_int m * 2 powi (- 1074))"
  (is "?l \<longleftrightarrow> ?r")
proof -
  define G where "G = (2::rat) ^ 1074"
  have G: "0 < G" by (simp only: G_def zero_less_power zero_less_numeral)
  have p: "(2::rat) powi (- 1074) = 1 / G"
    unfolding G_def by (simp only: power_int_minus power_int_numeral inverse_eq_divide)
  show ?thesis
    unfolding G_def [symmetric] p
  proof
    assume a: "of_int \<lfloor>v * G\<rfloor> = v * G"
    have "v = (v * G) * (1 / G)" using G by simp
    then have "v = of_int \<lfloor>v * G\<rfloor> * (1 / G)" unfolding a .
    then show "\<exists>m::int. v = of_int m * (1 / G)" ..
  next
    assume "\<exists>m::int. v = of_int m * (1 / G)"
    then obtain m :: int where "v = of_int m * (1 / G)" ..
    then have "v * G = of_int m" using G by simp
    then show "of_int \<lfloor>v * G\<rfloor> = v * G" by (metis floor_of_int)
  qed
qed

lemma to_double_is_double: "is_double (to_double q)"
proof (cases "q = 0")
  case True
  then show ?thesis by (simp add: to_double_def is_double_def)
next
  case False
  define e where "e = max (ilog2 \<bar>q\<bar>) (- 1022) - 52"
  define r where "r = round_even (q / 2 powi e)"
  have e: "- 1074 \<le> e" by (simp add: e_def)
  have "(2::rat) powi (e + 1074 + (- 1074)) = 2 powi (e + 1074) * 2 powi (- 1074)"
    by (rule power_int_add) simp
  moreover have "e + 1074 + (- 1074) = e" by simp
  ultimately have "(2::rat) powi e = 2 powi (e + 1074) * 2 powi (- 1074)"
    by (simp only:)
  moreover have "(2::rat) powi (e + 1074) = of_int (2 ^ nat (e + 1074))"
    using e by (simp add: power_int_def)
  ultimately have "of_int r * (2::rat) powi e = of_int (r * 2 ^ nat (e + 1074)) * 2 powi (- 1074)"
    by (simp only: of_int_mult mult.assoc)
  then have g: "is_double (Fin (of_int r * 2 powi e))"
    unfolding is_double_def jsnum.case grid_iff by blast
  show ?thesis
    using False g by (simp add: to_double_def e_def [symmetric] r_def [symmetric] Let_def is_double_def)
qed

lemma to_double_pos:
  assumes "0 < q" and "is_double (Fin q)"
  shows "to_double q = PInf \<or> (\<exists>v. 0 < v \<and> to_double q = Fin v)"
proof -
  define e where "e = max (ilog2 \<bar>q\<bar>) (- 1022) - 52"
  define r where "r = round_even (q / 2 powi e)"
  have "1 \<le> r"
  proof (cases "ilog2 q \<le> - 1022")
    case True
    then have e: "e = - 1074" using assms(1) by (simp add: e_def)
    obtain m :: int where m: "q = of_int m * 2 powi (- 1074)"
      using assms(2) unfolding is_double_def jsnum.case grid_iff by blast
    have "0 < m" using assms(1) m by (simp add: zero_less_mult_iff zero_less_power_int)
    moreover have "(2::rat) powi (- 1074) \<noteq> 0"
      by (metis less_irrefl two_powi_pos)
    then have "q / 2 powi e = of_int m"
      unfolding e m by (rule nonzero_mult_div_cancel_right)
    ultimately show ?thesis by (simp add: r_def round_even_of_int)
  next
    case False
    then have e: "e = ilog2 q - 52" using assms(1) by (simp add: e_def)
    have "(2::rat) powi 52 = 2 powi (ilog2 q) / 2 powi e"
      by (simp add: e flip: power_int_diff)
    also have "\<dots> \<le> q / 2 powi e"
      using ilog2_lower [OF assms(1)] by (intro divide_right_mono) (simp_all add: zero_le_power_int)
    finally have x: "2 ^ 52 \<le> q / 2 powi e" by simp
    have "q / 2 powi e - 1 / 2 \<le> of_int r"
      using round_even_error [of "q / 2 powi e"] unfolding r_def by linarith
    moreover have "(2::rat) \<le> 2 ^ 52" by simp
    ultimately have "(1::rat) \<le> of_int r" using x by linarith
    then show ?thesis by simp
  qed
  then have v: "(0::rat) < of_int r * 2 powi e"
    by (simp add: zero_less_mult_iff zero_less_power_int)
  have "to_double q = (if 2 ^ 1024 \<le> of_int r * (2::rat) powi e then PInf
      else if of_int r * (2::rat) powi e \<le> - (2 ^ 1024) then NInf else Fin (of_int r * 2 powi e))"
    using assms(1) by (simp add: to_double_def e_def r_def Let_def)
  then show ?thesis using v by (auto simp del: zero_less_power dest: order_less_le_trans)
qed

section \<open>Differences of doubles and the loop\<close>

lemma is_double_simps [simp]:
  "is_double PInf" "is_double NInf" "is_double (Fin 0)" "\<not> is_double NaN"
  by (simp_all add: is_double_def)

lemma is_double_diff:
  assumes "is_double (Fin x)" and "is_double (Fin y)"
  shows "is_double (Fin (x - y))"
proof -
  obtain m :: int where m: "x = of_int m * 2 powi (- 1074)"
    using assms(1) unfolding is_double_def jsnum.case grid_iff by blast
  obtain n :: int where n: "y = of_int n * 2 powi (- 1074)"
    using assms(2) unfolding is_double_def jsnum.case grid_iff by blast
  have "x - y = of_int (m - n) * 2 powi (- 1074)"
    unfolding m n by (simp only: of_int_diff left_diff_distrib)
  then show ?thesis
    unfolding is_double_def jsnum.case grid_iff by blast
qed

lemma is_double_minus:
  assumes "is_double (Fin x)"
  shows "is_double (Fin (- x))"
  using is_double_diff [OF is_double_simps(3) assms] by simp

lemma to_double_neg:
  assumes "q < 0" and "is_double (Fin q)"
  shows "to_double q = NInf \<or> (\<exists>v. v < 0 \<and> to_double q = Fin v)"
proof -
  have "0 < - q" using assms(1) by simp
  from to_double_pos [OF this is_double_minus [OF assms(2)]]
  have "to_double (- q) = PInf \<or> (\<exists>v. 0 < v \<and> to_double (- q) = Fin v)" .
  then show ?thesis
    unfolding to_double_minus by (cases "to_double q") auto
qed

lemma jsub_sign:
  assumes "is_double x" and "is_double y"
  shows "jless x y \<Longrightarrow> jless (jsub x y) (Fin 0)"
    and "jless y x \<Longrightarrow> jless (Fin 0) (jsub x y)"
proof -
  show "jless (jsub x y) (Fin 0)" if "jless x y"
  proof (cases x; cases y)
    fix a b assume xy: "x = Fin a" "y = Fin b"
    then have "a - b < 0" using that by simp
    moreover have "is_double (Fin (a - b))" using assms xy is_double_diff by simp
    ultimately show ?thesis using to_double_neg [of "a - b"] xy by auto
  qed (use that assms in auto)
  show "jless (Fin 0) (jsub x y)" if "jless y x"
  proof (cases x; cases y)
    fix a b assume xy: "x = Fin a" "y = Fin b"
    then have "0 < a - b" using that by simp
    moreover have "is_double (Fin (a - b))" using assms xy is_double_diff by simp
    ultimately show ?thesis using to_double_pos [of "a - b"] xy by auto
  qed (use that assms in auto)
qed

lemma jless_total: "x \<noteq> NaN \<Longrightarrow> y \<noteq> NaN \<Longrightarrow> x \<noteq> y \<Longrightarrow> jless x y \<or> jless y x"
  by (cases x; cases y) auto

lemma jless_asym: "jless x y \<Longrightarrow> \<not> jless y x"
  by (cases x; cases y) auto

lemma jless_irrefl: "\<not> jless x x"
  by (cases x) auto

lemma jless_trans: "jless x y \<Longrightarrow> jless y z \<Longrightarrow> jless x z"
  by (cases x; cases y; cases z) auto

lemma jless_not_NaN: "jless x y \<Longrightarrow> x \<noteq> NaN \<and> y \<noteq> NaN"
  by (cases x; cases y) auto

lemma Number_double: "Number s = NaN \<or> is_double (Number s)"
  by (auto simp: Number_def Let_def to_double_is_double split: option.splits prod.splits)

lemma part_at_double: "is_double (part_at (map Number ps) i)"
  using Number_double [of "ps ! i"]
  by (auto simp: part_at_def or_zero_def at_index_def)

lemma part_at_beyond: "length ps \<le> i \<Longrightarrow> part_at ps i = Fin 0"
  by (simp add: part_at_def or_zero_def at_index_def)

lemma compare_loop_equal:
  "(\<forall>k\<ge>i. part_at a k = part_at b k) \<Longrightarrow> compare_loop a b i = Fin 0"
proof (induction a b i rule: compare_loop.induct)
  case (1 aParts bParts i)
  show ?case
  proof (cases "i < max (length aParts) (length bParts)")
    case True
    have eq: "or_zero (at_index aParts i) = or_zero (at_index bParts i)"
      using "1.prems" by (simp add: part_at_def)
    have "compare_loop aParts bParts (Suc i) = Fin 0"
      using True eq "1.prems" by (intro "1.IH") auto
    then show ?thesis using True eq by (subst compare_loop.simps) simp
  next
    case False
    then show ?thesis by (subst compare_loop.simps) simp
  qed
qed

lemma compare_loop_first_diff:
  "i \<le> k \<Longrightarrow> (\<forall>j. i \<le> j \<and> j < k \<longrightarrow> part_at a j = part_at b j) \<Longrightarrow>
   part_at a k \<noteq> part_at b k \<Longrightarrow> compare_loop a b i = jsub (part_at a k) (part_at b k)"
proof (induction a b i rule: compare_loop.induct)
  case (1 aParts bParts i)
  have k: "k < max (length aParts) (length bParts)"
  proof (rule ccontr)
    assume "\<not> ?thesis"
    then have "part_at aParts k = Fin 0" "part_at bParts k = Fin 0"
      by (simp_all add: part_at_beyond)
    then show False using "1.prems"(3) by simp
  qed
  then have i: "i < max (length aParts) (length bParts)" using "1.prems"(1) by simp
  show ?case
  proof (cases "i = k")
    case True
    then show ?thesis
      using i "1.prems"(3) by (subst compare_loop.simps) (simp add: part_at_def)
  next
    case False
    then have eq: "or_zero (at_index aParts i) = or_zero (at_index bParts i)"
      using "1.prems"(1,2) by (simp add: part_at_def)
    have "compare_loop aParts bParts (Suc i) = jsub (part_at aParts k) (part_at bParts k)"
      using i eq False "1.prems" by (intro "1.IH") auto
    then show ?thesis using i eq by (subst compare_loop.simps) simp
  qed
qed

section \<open>Numerals\<close>

lemma radix_val_Nil: "radix_val r [] = 0"
  by (simp add: radix_val_def)

lemma radix_val_snoc: "radix_val r (ds @ [c]) = r * radix_val r ds + digit_val c"
  by (simp add: radix_val_def)

lemma digit_val_digit: "is_digit c \<Longrightarrow> 0 \<le> digit_val c \<and> digit_val c \<le> 9"
  by (auto simp: is_digit_def digit_val_def Let_def)

lemma is_radix_digit_10: "is_radix_digit 10 c \<longleftrightarrow> is_digit c"
  by (auto simp: is_radix_digit_def is_digit_def digit_val_def Let_def)

lemma radix_val_bounds:
  "list_all is_digit ds \<Longrightarrow> 0 \<le> radix_val 10 ds \<and> radix_val 10 ds < 10 ^ length ds"
proof (induction ds rule: rev_induct)
  case Nil
  then show ?case by (simp add: radix_val_Nil)
next
  case (snoc c ds)
  then have "0 \<le> radix_val 10 ds" "radix_val 10 ds + 1 \<le> 10 ^ length ds"
    and "0 \<le> digit_val c" "digit_val c \<le> 9"
    using digit_val_digit [of c] by auto
  then show ?case
    unfolding radix_val_snoc by (auto simp: algebra_simps)
qed

lemma digit_not_space: "is_digit c \<Longrightarrow> \<not> is_space c"
  by (auto simp: is_digit_def is_space_def)

lemma dropWhile_id: "xs \<noteq> [] \<Longrightarrow> \<not> P (hd xs) \<Longrightarrow> dropWhile P xs = xs"
  by (cases xs) auto

lemma trim_digits:
  assumes "list_all is_digit ds"
  shows "trim ds = ds"
proof (cases "ds = []")
  case True
  then show ?thesis by (simp add: trim_def)
next
  case False
  have a: "\<not> is_space (hd ds)"
    using assms False by (cases ds) (auto simp: digit_not_space)
  have b: "\<not> is_space (hd (rev ds))"
    using assms False by (cases ds rule: rev_cases) (auto simp: digit_not_space)
  show ?thesis
    using False a b by (simp add: trim_def dropWhile_id)
qed

lemma trim_start_digits: "list_all is_digit ds \<Longrightarrow> trim_start ds = ds"
  by (cases ds) (auto simp: trim_start_def digit_not_space)

lemma digit_chars:
  assumes "is_digit c"
  shows "c \<noteq> CHR ''-''" "c \<noteq> CHR ''+''" "c \<noteq> CHR ''.''" "c \<noteq> CHR ''I''"
    "c \<noteq> CHR ''x''" "c \<noteq> CHR ''X''" "c \<noteq> CHR ''o''" "c \<noteq> CHR ''O''"
    "c \<noteq> CHR ''b''" "c \<noteq> CHR ''B''"
  using assms by (auto simp: is_digit_def)

lemma signed_part_digits: "list_all is_digit ds \<Longrightarrow> signed_part ds = (False, ds)"
  by (cases ds) (auto simp: signed_part_def digit_chars)

lemma non_decimal_digits:
  assumes "list_all is_digit ds"
  shows "non_decimal ds = None"
proof (cases ds)
  case Nil
  then show ?thesis by (simp add: non_decimal_def)
next
  case outer: (Cons z t)
  show ?thesis
  proof (cases t)
    case Nil
    with outer show ?thesis by (simp add: non_decimal_def)
  next
    case (Cons x rest)
    have "is_digit x" using assms outer Cons by simp
    from digit_chars(5-10) [OF this] show ?thesis
      unfolding outer Cons non_decimal_def by simp
  qed
qed

lemma takeWhile_all: "list_all P xs \<Longrightarrow> takeWhile P xs = xs"
  by (induction xs) auto

lemma dropWhile_all: "list_all P xs \<Longrightarrow> dropWhile P xs = []"
  by (induction xs) auto

lemma unsigned_decimal_digits:
  "list_all is_digit ds \<Longrightarrow> ds \<noteq> [] \<Longrightarrow> unsigned_decimal ds = Some (of_int (radix_val 10 ds))"
  by (simp add: unsigned_decimal_def takeWhile_all dropWhile_all exponent_part_def)

lemma Number_digits:
  assumes "list_all is_digit ds" and "ds \<noteq> []"
  shows "Number ds = to_double (of_int (radix_val 10 ds))"
proof -
  have "ds \<noteq> ''Infinity''" using assms(1) by (auto simp: is_digit_def)
  then show ?thesis
    using assms
    by (simp add: Number_def trim_digits non_decimal_digits signed_part_digits
        unsigned_decimal_digits)
qed


lemma parseInt_digits:
  assumes "list_all is_digit ds" and "ds \<noteq> []"
  shows "parseInt ds (Some 10) = to_double (of_int (radix_val 10 ds))"
    and "parseInt ds None = to_double (of_int (radix_val 10 ds))"
proof -
  have x: "take 2 ds \<noteq> ''0x''" "take 2 ds \<noteq> ''0X''"
    using assms by (cases ds; cases "tl ds"; auto simp: digit_chars)+
  have t: "takeWhile (is_radix_digit 10) ds = ds"
    using assms(1) by (simp add: takeWhile_all is_radix_digit_10 [abs_def])
  show "parseInt ds (Some 10) = to_double (of_int (radix_val 10 ds))"
    using assms by (simp add: parseInt_def trim_start_digits signed_part_digits t)
  show "parseInt ds None = to_double (of_int (radix_val 10 ds))"
    using assms x by (simp add: parseInt_def trim_start_digits signed_part_digits t)
qed

section \<open>Doubles of small and of large integers\<close>

lemma to_double_numeral:
  "(numeral n :: int) < 2 ^ 53 \<Longrightarrow> to_double (numeral n) = Fin (numeral n)"
  "(numeral n :: int) < 2 ^ 53 \<Longrightarrow> to_double (- numeral n) = Fin (- numeral n)"
  "to_double 0 = Fin 0" "to_double 1 = Fin 1"
  using to_double_of_int [of "numeral n"] to_double_of_int [of "- numeral n"]
    to_double_of_int [of 0] to_double_of_int [of 1]
  by simp_all

lemma to_double_lower:
  assumes "1 \<le> q"
  shows "to_double q = PInf \<or> (\<exists>v. to_double q = Fin v \<and> q - q / 2 ^ 53 \<le> v)"
proof -
  have q: "0 < q" using assms by simp
  define e where "e = max (ilog2 \<bar>q\<bar>) (- 1022) - 52"
  define r where "r = round_even (q / 2 powi e)"
  define u where "u = (2::rat) powi e"
  have u: "0 < u" by (simp add: u_def two_powi_pos)
  have ue: "u \<le> q * 2 powi (- 52)"
  proof (cases "ilog2 q \<le> - 1022")
    case True
    then have "e = - 1074" using q by (simp add: e_def)
    then have "u \<le> 2 powi (- 52)"
      unfolding u_def by (simp only:) (rule power_int_increasing, simp_all)
    also have "\<dots> \<le> q * 2 powi (- 52)"
      using assms two_powi_pos [of "- 52"] by (simp only: mult_le_cancel_right1) auto
    finally show ?thesis .
  next
    case False
    then have "e = ilog2 q + (- 52)" using q by (simp add: e_def)
    moreover have "(2::rat) powi (ilog2 q + (- 52)) = 2 powi (ilog2 q) * 2 powi (- 52)"
      by (rule power_int_add) simp
    ultimately have "u = 2 powi (ilog2 q) * 2 powi (- 52)"
      unfolding u_def by (simp only:)
    also have "\<dots> \<le> q * 2 powi (- 52)"
      using ilog2_lower [OF q] two_powi_pos [of "- 52"]
      by (intro mult_right_mono) (simp_all only: less_imp_le)
    finally show ?thesis .
  qed
  have p52: "(2::rat) powi (- 52) = 1 / 2 ^ 52"
    by (simp only: power_int_minus power_int_numeral inverse_eq_divide)
  have "\<bar>of_int r - q / u\<bar> \<le> 1 / 2"
    unfolding r_def u_def by (rule round_even_error)
  then have "q / u - 1 / 2 \<le> of_int r" by linarith
  then have "(q / u - 1 / 2) * u \<le> of_int r * u"
    using u by (intro mult_right_mono) simp_all
  moreover have "(q / u - 1 / 2) * u = q - u / 2"
    using u by (simp add: left_diff_distrib)
  ultimately have "q - u / 2 \<le> of_int r * u"
    by (simp only:)
  moreover have "u / 2 \<le> q / 2 ^ 53"
    using ue unfolding p52 by simp
  ultimately have v: "q - q / 2 ^ 53 \<le> of_int r * u" by linarith
  have "to_double q = (if 2 ^ 1024 \<le> of_int r * u then PInf
      else if of_int r * u \<le> - (2 ^ 1024) then NInf else Fin (of_int r * u))"
    using q by (simp add: to_double_def e_def r_def u_def Let_def)
  moreover have "0 \<le> q - q / 2 ^ 53" using q by (simp add: field_simps)
  ultimately show ?thesis
    using v by (auto simp del: zero_less_power)
qed

lemma to_double_above_ten:
  assumes "11 \<le> k"
  shows "\<not> jle (to_double (of_int k)) (Fin 10)" and "to_double (of_int k) \<noteq> NaN"
    and "jle (Fin 11) (to_double (of_int k))"
proof -
  have k: "(11::rat) \<le> of_int k" using assms by (metis of_int_le_iff of_int_numeral)
  then have "(1::rat) \<le> of_int k" by simp
  from to_double_lower [OF this]
  consider "to_double (of_int k) = PInf"
    | v where "to_double (of_int k) = Fin v" "rat_of_int k - of_int k / 2 ^ 53 \<le> v"
    by blast
  then have "to_double (of_int k) = PInf \<or> (\<exists>v. to_double (of_int k) = Fin v \<and> 10 < v)"
  proof cases
    case 1
    then show ?thesis by simp
  next
    case 2
    have "(10::rat) < of_int k - of_int k / 2 ^ 53" using k by simp
    then show ?thesis using 2 by auto
  qed
  then show "\<not> jle (to_double (of_int k)) (Fin 10)" and "to_double (of_int k) \<noteq> NaN"
    by (auto simp: jle_def)
  show "jle (Fin 11) (to_double (of_int k))"
  proof (cases "\<bar>k\<bar> < 2 ^ 53")
    case True
    have "(11::rat) = of_int k \<or> 11 < rat_of_int k" using k by linarith
    then show ?thesis unfolding to_double_of_int [OF True] by (auto simp: jle_def)
  next
    case False
    then have big: "(2::rat) ^ 53 \<le> of_int k"
      using assms by (metis abs_of_nonneg of_int_le_iff of_int_numeral of_int_power not_less
          order_trans zero_le_numeral)
    then have "(1::rat) \<le> of_int k" by simp
    from to_double_lower [OF this]
    consider "to_double (of_int k) = PInf"
      | v where "to_double (of_int k) = Fin v" "rat_of_int k - of_int k / 2 ^ 53 \<le> v"
      by blast
    then show ?thesis
    proof cases
      case 1
      then show ?thesis by (simp add: jle_def)
    next
      case 2
      have "(11::rat) < of_int k - of_int k / 2 ^ 53" using big by simp
      then show ?thesis using 2 by (auto simp: jle_def)
    qed
  qed
qed

section \<open>Splitting\<close>

lemma split_on_not_Nil: "split_on sep s \<noteq> []"
  by (induction s) (auto split: list.splits)

lemma at_index_0: "at_index (x # xs) 0 = Some x"
  by (simp add: at_index_def)

section \<open>The comparator is a total preorder\<close>

lemma part_at_not_NaN: "part_at ps i \<noteq> NaN"
  by (auto simp: part_at_def or_zero_def split: option.splits)

lemma parts_lessI:
  assumes "\<forall>j < k. part_at a j = part_at b j" and "jless (part_at a k) (part_at b k)"
  shows "parts_less a b"
proof -
  have "k < max (length a) (length b)"
  proof (rule ccontr)
    assume "\<not> ?thesis"
    then have "part_at a k = Fin 0" "part_at b k = Fin 0" by (simp_all add: part_at_beyond)
    then show False using assms(2) by simp
  qed
  then show ?thesis using assms unfolding parts_less_def by blast
qed

lemma parts_lessE:
  assumes "parts_less a b"
  obtains k where "\<forall>j < k. part_at a j = part_at b j" and "jless (part_at a k) (part_at b k)"
  using assms unfolding parts_less_def by blast

lemma first_differing_index:
  assumes "\<exists>k. part_at a k \<noteq> part_at b k"
  obtains k where "\<forall>j < k. part_at a j = part_at b j" and "part_at a k \<noteq> part_at b k"
proof -
  define P where "P k \<longleftrightarrow> part_at a k \<noteq> part_at b k" for k
  have "\<exists>k. P k" using assms by (simp add: P_def)
  then obtain k where "P k" and "\<forall>j < k. \<not> P j"
    using exists_least_iff [of P] by blast
  then show ?thesis using that by (simp add: P_def)
qed

lemma parts_less_asym: "parts_less a b \<Longrightarrow> \<not> parts_less b a"
proof
  assume "parts_less a b" and "parts_less b a"
  then obtain k l where k: "\<forall>j < k. part_at a j = part_at b j" "jless (part_at a k) (part_at b k)"
    and l: "\<forall>j < l. part_at b j = part_at a j" "jless (part_at b l) (part_at a l)"
    by (elim parts_lessE) blast
  have "k = l"
  proof (rule linorder_cases [of k l])
    assume "k < l" then show ?thesis using l(1) k(2) jless_irrefl by metis
  next
    assume "l < k" then show ?thesis using k(1) l(2) jless_irrefl by metis
  qed
  then show False using k(2) l(2) jless_asym by blast
qed

lemma parts_less_cotrans:
  assumes "parts_less c a"
  shows "parts_less c b \<or> parts_less b a"
proof -
  from assms obtain k where k: "\<forall>j < k. part_at c j = part_at a j" "jless (part_at c k) (part_at a k)"
    by (elim parts_lessE)
  show ?thesis
  proof (cases "\<forall>j < k. part_at b j = part_at c j")
    case True
    show ?thesis
    proof (cases "jless (part_at c k) (part_at b k)")
      case True
      with \<open>\<forall>j < k. part_at b j = part_at c j\<close> show ?thesis
        by (intro disjI1 parts_lessI [of k]) auto
    next
      case False
      have "part_at b k = part_at c k \<or> jless (part_at b k) (part_at c k)"
        using False jless_total [of "part_at b k" "part_at c k"] part_at_not_NaN by blast
      then have "jless (part_at b k) (part_at a k)"
        using k(2) jless_trans by auto
      with True k(1) show ?thesis
        by (intro disjI2 parts_lessI [of k]) auto
    qed
  next
    case False
    then have "\<exists>j. j < k \<and> part_at b j \<noteq> part_at c j" by blast
    then obtain j where j: "j < k" "part_at b j \<noteq> part_at c j"
      and least: "\<forall>i < j. \<not> (i < k \<and> part_at b i \<noteq> part_at c i)"
      using exists_least_iff [of "\<lambda>j. j < k \<and> part_at b j \<noteq> part_at c j"] by blast
    have pre: "\<forall>i < j. part_at b i = part_at c i \<and> part_at c i = part_at a i"
      using least j(1) k(1) by auto
    have ca: "part_at c j = part_at a j" using j(1) k(1) by simp
    from jless_total [OF part_at_not_NaN part_at_not_NaN j(2)]
    show ?thesis
    proof
      assume "jless (part_at b j) (part_at c j)"
      then show ?thesis using pre ca by (intro disjI2 parts_lessI [of j]) auto
    next
      assume "jless (part_at c j) (part_at b j)"
      then show ?thesis using pre by (intro disjI1 parts_lessI [of j]) auto
    qed
  qed
qed

lemma compare_loop_sign:
  fixes as bs :: "string list"
  defines "a \<equiv> map Number as" and "b \<equiv> map Number bs"
  shows "jless (compare_loop a b 0) (Fin 0) \<longleftrightarrow> parts_less a b"
    and "jless (Fin 0) (compare_loop a b 0) \<longleftrightarrow> parts_less b a"
    and "compare_loop a b 0 \<noteq> NaN"
proof -
  have "(jless (compare_loop a b 0) (Fin 0) \<longleftrightarrow> parts_less a b)
      \<and> (jless (Fin 0) (compare_loop a b 0) \<longleftrightarrow> parts_less b a)
      \<and> compare_loop a b 0 \<noteq> NaN"
  proof (cases "\<exists>k. part_at a k \<noteq> part_at b k")
    case False
    then have eq: "\<forall>k. part_at a k = part_at b k" by simp
    then have "compare_loop a b 0 = Fin 0" by (intro compare_loop_equal) simp
    moreover have "\<not> parts_less a b" "\<not> parts_less b a"
      using eq jless_irrefl by (auto elim!: parts_lessE)
    ultimately show ?thesis by simp
  next
    case True
    then obtain k where k: "\<forall>j < k. part_at a j = part_at b j" "part_at a k \<noteq> part_at b k"
      by (rule first_differing_index)
    have c: "compare_loop a b 0 = jsub (part_at a k) (part_at b k)"
      using k by (intro compare_loop_first_diff) auto
    have da: "is_double (part_at a k)" and db: "is_double (part_at b k)"
      unfolding a_def b_def by (rule part_at_double)+
    from jless_total [OF part_at_not_NaN part_at_not_NaN k(2)]
    show ?thesis
    proof
      assume l: "jless (part_at a k) (part_at b k)"
      then have ab: "parts_less a b" using k(1) by (intro parts_lessI [of k]) auto
      have neg: "jless (compare_loop a b 0) (Fin 0)"
        unfolding c using da db l by (rule jsub_sign(1))
      show ?thesis
        using ab neg parts_less_asym [OF ab] jless_asym [OF neg] jless_not_NaN [OF neg] by simp
    next
      assume l: "jless (part_at b k) (part_at a k)"
      then have ba: "parts_less b a" using k(1) by (intro parts_lessI [of k]) auto
      have pos: "jless (Fin 0) (compare_loop a b 0)"
        unfolding c using da db l by (rule jsub_sign(2))
      show ?thesis
        using ba pos parts_less_asym [OF ba] jless_asym [OF pos] jless_not_NaN [OF pos] by simp
    qed
  qed
  then show "jless (compare_loop a b 0) (Fin 0) \<longleftrightarrow> parts_less a b"
    and "jless (Fin 0) (compare_loop a b 0) \<longleftrightarrow> parts_less b a"
    and "compare_loop a b 0 \<noteq> NaN"
    by blast+
qed

lemma compareVersions_not_NaN: "compareVersions a b \<noteq> NaN"
  unfolding compareVersions_def by (rule compare_loop_sign(3))

lemma version_le_total: "\<not> version_le a b \<Longrightarrow> version_le b a"
  unfolding version_le_def compareVersions_def compare_loop_sign(2)
  using parts_less_asym by blast

lemma version_le_trans: "version_le a b \<Longrightarrow> version_le b c \<Longrightarrow> version_le a c"
  unfolding version_le_def compareVersions_def compare_loop_sign(2)
  using parts_less_cotrans by blast

lemma version_le_refl: "version_le a a"
  unfolding version_le_def compareVersions_def compare_loop_sign(2)
  using parts_less_asym by blast

section \<open>Sorting and sets\<close>

lemma set_insert_version: "set (insert_version v ws) = insert v (set ws)"
  by (induction ws) auto

lemma sorted_insert_version:
  "sorted_wrt version_le ws \<Longrightarrow> sorted_wrt version_le (insert_version v ws)"
proof (induction ws)
  case Nil
  then show ?case by simp
next
  case (Cons w ws)
  show ?case
  proof (cases "jless (Fin 0) (compareVersions v w)")
    case True
    then have "version_le w v" using version_le_total [of v w] by (simp add: version_le_def)
    then show ?thesis using True Cons by (auto simp: set_insert_version)
  next
    case False
    then have "version_le v w" by (simp add: version_le_def)
    then show ?thesis using False Cons by (auto intro: version_le_trans)
  qed
qed

lemma distinct_insert_version:
  "distinct ws \<Longrightarrow> v \<notin> set ws \<Longrightarrow> distinct (insert_version v ws)"
  by (induction ws) (auto simp: set_insert_version)

lemma set_sortVersions: "set (sortVersions vs) = set vs"
  by (induction vs) (auto simp: sortVersions_def set_insert_version)

lemma sorted_sortVersions: "sorted_wrt version_le (sortVersions vs)"
  by (induction vs) (auto simp: sortVersions_def sorted_insert_version)

lemma distinct_sortVersions: "distinct vs \<Longrightarrow> distinct (sortVersions vs)"
  by (induction vs) (auto simp: sortVersions_def distinct_insert_version set_sortVersions [unfolded sortVersions_def])

lemma set_set_add_all: "set (set_add_all xs vs) = set xs \<union> set vs"
  unfolding set_add_all_def by (induction vs arbitrary: xs) (auto simp: set_add_def)

lemma distinct_set_add_all: "distinct xs \<Longrightarrow> distinct (set_add_all xs vs)"
  unfolding set_add_all_def by (induction vs arbitrary: xs) (auto simp: set_add_def)

section \<open>Evaluating the comparator\<close>

lemma part_at_simps:
  "part_at [] k = Fin 0"
  "part_at (x # xs) 0 = or_zero (Some x)"
  "part_at (x # xs) (Suc k) = part_at xs k"
  by (simp_all add: part_at_def at_index_def or_zero_def)

lemma compare_parts_equal:
  "(\<forall>k. part_at a k = part_at b k) \<Longrightarrow> compare_parts a b = Fin 0"
proof (induction a b rule: compare_parts.induct)
  case 1
  then show ?case by simp
next
  case (2 x xs)
  have "part_at (x # xs) 0 = part_at [] 0" using 2(2) by blast
  then have x: "or_zero (Some x) = Fin 0" by (simp add: part_at_simps)
  have "\<forall>k. part_at (x # xs) (Suc k) = part_at [] (Suc k)" using 2(2) by blast
  then have "\<forall>k. part_at xs k = part_at [] k" by (simp add: part_at_simps)
  then show ?case using 2(1) x by simp
next
  case (3 y ys)
  have "part_at [] 0 = part_at (y # ys) 0" using 3(2) by blast
  then have y: "or_zero (Some y) = Fin 0" by (simp add: part_at_simps)
  have "\<forall>k. part_at [] (Suc k) = part_at (y # ys) (Suc k)" using 3(2) by blast
  then have "\<forall>k. part_at [] k = part_at ys k" by (simp add: part_at_simps)
  then show ?case using 3(1) y by simp
next
  case (4 x xs y ys)
  have "part_at (x # xs) 0 = part_at (y # ys) 0" using 4(2) by blast
  then have xy: "or_zero (Some x) = or_zero (Some y)" by (simp add: part_at_simps)
  have "\<forall>k. part_at (x # xs) (Suc k) = part_at (y # ys) (Suc k)" using 4(2) by blast
  then have "\<forall>k. part_at xs k = part_at ys k" by (simp add: part_at_simps)
  then show ?case using 4(1) xy by simp
qed

lemma compare_parts_first_diff:
  "(\<forall>j < k. part_at a j = part_at b j) \<Longrightarrow> part_at a k \<noteq> part_at b k \<Longrightarrow>
   compare_parts a b = jsub (part_at a k) (part_at b k)"
proof (induction a b arbitrary: k rule: compare_parts.induct)
  case 1
  then show ?case by (simp add: part_at_simps)
next
  case (2 x xs)
  show ?case
  proof (cases k)
    case 0
    then show ?thesis using 2(3) by (simp add: part_at_simps)
  next
    case (Suc n)
    have "part_at (x # xs) 0 = part_at [] 0" using 2(2) Suc by blast
    then have x: "or_zero (Some x) = Fin 0" by (simp add: part_at_simps)
    have "\<forall>j < n. part_at (x # xs) (Suc j) = part_at [] (Suc j)" using 2(2) Suc by auto
    then have "\<forall>j < n. part_at xs j = part_at [] j" by (simp add: part_at_simps)
    moreover have "part_at xs n \<noteq> part_at [] n" using 2(3) Suc by (simp add: part_at_simps)
    ultimately have "compare_parts xs [] = jsub (part_at xs n) (part_at [] n)"
      using x by (intro 2(1)) auto
    then show ?thesis using x Suc by (simp add: part_at_simps)
  qed
next
  case (3 y ys)
  show ?case
  proof (cases k)
    case 0
    then show ?thesis using 3(3) by (simp add: part_at_simps)
  next
    case (Suc n)
    have "part_at [] 0 = part_at (y # ys) 0" using 3(2) Suc by blast
    then have y: "or_zero (Some y) = Fin 0" by (simp add: part_at_simps)
    have "\<forall>j < n. part_at [] (Suc j) = part_at (y # ys) (Suc j)" using 3(2) Suc by auto
    then have "\<forall>j < n. part_at [] j = part_at ys j" by (simp add: part_at_simps)
    moreover have "part_at [] n \<noteq> part_at ys n" using 3(3) Suc by (simp add: part_at_simps)
    ultimately have "compare_parts [] ys = jsub (part_at [] n) (part_at ys n)"
      using y by (intro 3(1)) auto
    then show ?thesis using y Suc by (simp add: part_at_simps)
  qed
next
  case (4 x xs y ys)
  show ?case
  proof (cases k)
    case 0
    then show ?thesis using 4(3) by (simp add: part_at_simps)
  next
    case (Suc n)
    have "part_at (x # xs) 0 = part_at (y # ys) 0" using 4(2) Suc by blast
    then have xy: "or_zero (Some x) = or_zero (Some y)" by (simp add: part_at_simps)
    have "\<forall>j < n. part_at (x # xs) (Suc j) = part_at (y # ys) (Suc j)" using 4(2) Suc by auto
    then have "\<forall>j < n. part_at xs j = part_at ys j" by (simp add: part_at_simps)
    moreover have "part_at xs n \<noteq> part_at ys n" using 4(3) Suc by (simp add: part_at_simps)
    ultimately have "compare_parts xs ys = jsub (part_at xs n) (part_at ys n)"
      using xy by (intro 4(1)) auto
    then show ?thesis using xy Suc by (simp add: part_at_simps)
  qed
qed

lemma compare_loop_parts: "compare_loop a b 0 = compare_parts a b"
proof (cases "\<exists>k. part_at a k \<noteq> part_at b k")
  case False
  then have eq: "\<forall>k. part_at a k = part_at b k" by simp
  have "compare_loop a b 0 = Fin 0" using eq by (intro compare_loop_equal) simp
  then show ?thesis using compare_parts_equal [OF eq] by simp
next
  case True
  then obtain k where k: "\<forall>j < k. part_at a j = part_at b j" "part_at a k \<noteq> part_at b k"
    by (rule first_differing_index)
  have "compare_loop a b 0 = jsub (part_at a k) (part_at b k)"
    using k by (intro compare_loop_first_diff) auto
  then show ?thesis using compare_parts_first_diff [OF k] by simp
qed

lemma compareVersions_parts:
  "compareVersions a b =
     compare_parts (map Number (split_on CHR ''.'' a)) (map Number (split_on CHR ''.'' b))"
  by (simp add: compareVersions_def compare_loop_parts)

lemma or_zero_Fin: "or_zero (Some (Fin x)) = Fin x" and or_zero_NaN: "or_zero (Some NaN) = Fin 0"
  and or_zero_PInf: "or_zero (Some PInf) = PInf" and or_zero_NInf: "or_zero (Some NInf) = NInf"
  by (auto simp: or_zero_def)

lemma Number_numeral:
  "list_all is_digit ds \<Longrightarrow> ds \<noteq> [] \<Longrightarrow> \<bar>radix_val 10 ds\<bar> < 2 ^ 53 \<Longrightarrow>
   Number ds = Fin (of_int (radix_val 10 ds))"
  by (simp add: Number_digits to_double_of_int)

lemma to_double_minus_one: "to_double (- 1) = Fin (- 1)"
  using to_double_of_int [of "- 1"] by simp

lemmas version_eval = to_double_minus_one
  compareVersions_parts Number_numeral is_digit_def digit_val_def radix_val_def
  or_zero_Fin to_double_numeral START_SUPPORTED_CUDA_VERSION_def jle_def

section \<open>The catalog\<close>

lemma compareVersions_ge_iff:
  "jle (Fin 0) (compareVersions a b) \<longleftrightarrow> \<not> jless (compareVersions a b) (Fin 0)"
  using compareVersions_not_NaN [of a b]
  by (cases "compareVersions a b") (auto simp: jle_def)

lemma sorted_wrt_last:
  assumes "sorted_wrt P xs" and "x \<in> set xs" and "\<And>y. P y y"
  shows "P x (last xs)"
proof -
  from assms(2) obtain i where i: "i < length xs" "xs ! i = x"
    by (auto simp: in_set_conv_nth)
  then have ne: "xs \<noteq> []" by auto
  show ?thesis
  proof (cases "i = length xs - 1")
    case True
    then show ?thesis using i ne assms(3) by (simp add: last_conv_nth)
  next
    case False
    then have "i < length xs - 1" using i by simp
    then have "P (xs ! i) (xs ! (length xs - 1))"
      using sorted_wrt_nth_less [OF assms(1), of i "length xs - 1"] i by simp
    then show ?thesis using i ne by (simp add: last_conv_nth)
  qed
qed

lemma at_int_last: "at_int xs (int (length xs) - 1) = (if xs = [] then None else Some (last xs))"
  by (cases "xs = []") (auto simp: at_int_def at_index_def last_conv_nth nat_diff_distrib')


lemma catalog_properties:
  assumes "fetchRedistribVersions client = Inr r"
    and "fetchArchiveVersions client = Inr a"
    and "fetchOpensourceVersions client = Inr s"
  defines "catalog \<equiv>
    filter (\<lambda>v. jle (Fin 0) (compareVersions v START_SUPPORTED_CUDA_VERSION))
      (sortVersions (set_add_all [] (r @ a @ s @ OLD_CUDA_VERSIONS)))"
  shows "fetchAvailableCudaVersions client = Inr catalog"
    and "set catalog = {v \<in> set r \<union> set a \<union> set s \<union> set OLD_CUDA_VERSIONS.
            jle (Fin 0) (compareVersions v START_SUPPORTED_CUDA_VERSION)}"
    and "distinct catalog"
    and "sorted_wrt version_le catalog"
proof -
  show "fetchAvailableCudaVersions client = Inr catalog"
    by (simp add: fetchAvailableCudaVersions_def assms Let_def)
  show "set catalog = {v \<in> set r \<union> set a \<union> set s \<union> set OLD_CUDA_VERSIONS.
            jle (Fin 0) (compareVersions v START_SUPPORTED_CUDA_VERSION)}"
    by (auto simp: catalog_def set_sortVersions set_set_add_all)
  show "distinct catalog"
    by (simp add: catalog_def distinct_sortVersions distinct_set_add_all)
  show "sorted_wrt version_le catalog"
    unfolding catalog_def by (rule sorted_wrt_filter) (rule sorted_sortVersions)
qed

section \<open>Evaluating the scrapers\<close>

lemma exec_all_numeral:
  "exec_all m (numeral k) (c # cs) = exec_all m (pred_numeral k) cs"
  by (simp add: numeral_eq_Suc)

lemma dot_groups_numeral:
  "dot_groups (numeral k) s = dot_groups (Suc (pred_numeral k)) s"
  by (simp add: numeral_eq_Suc)

lemmas scrape_eval = get_ok_def exec_all.simps exec_all_numeral dot_groups_numeral
  strip_prefix_def version_token_def digits1_def
  redistribPattern_def pattern1_def pattern2_def versionPattern_def to_lower_def
  set_add_all_def set_add_def sortVersions_def is_digit_def is_space_def Let_def

lemma example_redistrib:
  "fetchRedistribVersions (example_client ''redistrib_12.1.json CUDA Toolkit 9.2 cuda-11-0-download'')
     = Inr [''12.1'']"
  by (simp add: fetchRedistribVersions_def example_client_def scrape_eval)

lemma example_archive:
  "fetchArchiveVersions (example_client ''redistrib_12.1.json CUDA Toolkit 9.2 cuda-11-0-download'')
     = Inr [''9.2'', ''11.0'']"
  by (simp add: fetchArchiveVersions_def example_client_def scrape_eval version_eval)

lemma example_opensource:
  "fetchOpensourceVersions (example_client ''redistrib_12.1.json CUDA Toolkit 9.2 cuda-11-0-download'')
     = Inr []"
  by (simp add: fetchOpensourceVersions_def example_client_def scrape_eval)

section \<open>The checks of the locator\<close>

lemma START_parts:
  "map Number (split_on CHR ''.'' START_SUPPORTED_CUDA_VERSION) = [Fin 10, Fin 0]"
  by (simp add: version_eval)

lemma below_ten_unsupported:
  assumes "split_on CHR ''.'' version = major # rest"
    and "list_all is_digit major" and "major \<noteq> []" and "radix_val 10 major < 10"
  shows "jless (compareVersions version START_SUPPORTED_CUDA_VERSION) (Fin 0)"
proof -
  define n where "n = radix_val 10 major"
  have n: "0 \<le> n" "n < 10" using radix_val_bounds [OF assms(2)] assms(4) by (simp_all add: n_def)
  then have "\<bar>n\<bar> < 2 ^ 53" by simp
  then have N: "Number major = Fin (of_int n)"
    unfolding n_def using assms(2,3) by (intro Number_numeral)
  have ne: "Fin (rat_of_int n) \<noteq> Fin 10" using n by simp
  have "\<bar>n - 10\<bar> < 2 ^ 53" using n by simp
  from to_double_of_int [OF this]
  have "jsub (Fin (of_int n)) (Fin 10) = Fin (of_int (n - 10))" by simp
  moreover have "rat_of_int (n - 10) < 0" using n by simp
  ultimately show ?thesis
    unfolding compareVersions_parts START_parts assms(1) list.map N
    using ne by (simp add: or_zero_Fin)
qed

lemma major_of_digits:
  assumes "split_on CHR ''.'' version = major # rest"
    and "list_all is_digit major" and "major \<noteq> []"
  shows "major_of version = to_double (of_int (radix_val 10 major))"
  using assms by (simp add: major_of_def at_index_0 parseInt_digits)

lemma major_at_most_ten:
  assumes "split_on CHR ''.'' version = major # rest"
    and "list_all is_digit major" and "major \<noteq> []" and "radix_val 10 major \<le> 10"
  shows "jle (major_of version) (Fin 10)"
proof -
  define n where "n = radix_val 10 major"
  have n: "0 \<le> n" "n \<le> 10" using radix_val_bounds [OF assms(2)] assms(4) by (simp_all add: n_def)
  then have "\<bar>n\<bar> < 2 ^ 53" by simp
  from to_double_of_int [OF this] have "major_of version = Fin (of_int n)"
    using major_of_digits [OF assms(1-3)] by (simp add: n_def)
  moreover have "rat_of_int n \<le> 10" using n by simp
  ultimately show ?thesis by (auto simp: jle_def)
qed

section \<open>The legacy table\<close>

lemma CUDA_LINKS_fields:
  assumes "CUDA_LINKS v = Some link"
  shows "linuxX86Url link \<noteq> []" and "windowsUrl link \<noteq> []" and "linuxArm64Url link = []"
    and "v \<in> set OLD_CUDA_VERSIONS"
proof -
  have "(v, link) \<in> set CUDA_LINKS_entries"
    using assms unfolding CUDA_LINKS_def by (rule map_of_SomeD)
  then show "linuxX86Url link \<noteq> []" and "windowsUrl link \<noteq> []" and "linuxArm64Url link = []"
    and "v \<in> set OLD_CUDA_VERSIONS"
    unfolding CUDA_LINKS_entries_def OLD_CUDA_VERSIONS_def by auto
qed

lemma CUDA_LINKS_10_0:
  "CUDA_LINKS ''10.0'' = Some
     \<lparr>md5sumUrl = ''https://developer.download.nvidia.com/compute/cuda/10.0/Prod/docs/sidebar/md5sum.txt'',
      linuxX86Url = ''http://developer.download.nvidia.com/compute/cuda/10.0/Prod/patches/1/cuda_10.0.130.1_linux.run'',
      linuxArm64Url = '''',
      windowsUrl = ''https://developer.nvidia.com/compute/cuda/10.0/Prod/local_installers/cuda_10.0.130_411.31_win10''\<rparr>"
  by (simp add: CUDA_LINKS_def CUDA_LINKS_entries_def)

text \<open>
  For a legacy version on Linux x86-64 or on Windows the table of the program decides
  alone: a key of the table yields its URL at the table step, and for any other version
  the fallback for CUDA 10 and earlier reads the missing entry.
\<close>

lemma legacy_request_outcome:
  assumes "\<not> jless (compareVersions version START_SUPPORTED_CUDA_VERSION) (Fin 0)"
    and "jle (major_of version) (Fin 10)"
    and "os = LINUX \<and> arch = X86_64 \<or> os = WINDOWS"
  shows "getCudaInstallerUrl CUDA_LINKS client version os arch =
    (case CUDA_LINKS version of
       None \<Rightarrow> ([], Inl TypeError)
     | Some link \<Rightarrow> ([], Inr (if os = LINUX then linuxX86Url link else windowsUrl link)))"
proof (cases "CUDA_LINKS version")
  case None
  then show ?thesis
    using assms
    by (auto simp: getCudaInstallerUrl_def table_url_def locate_after_table_def Let_def)
next
  case (Some link)
  note f = CUDA_LINKS_fields(1,2) [OF Some]
  show ?thesis
    using assms f Some
    by (auto simp: getCudaInstallerUrl_def table_url_def Let_def)
qed

section \<open>The scan of the manifest\<close>

lemma windows_scan_result:
  "windows_scan names acc =
     (find (suffix ''_windows.exe'') names,
      (case filter (suffix ''_win10.exe'') (takeWhile (\<lambda>f. \<not> suffix ''_windows.exe'' f) names) of
         [] \<Rightarrow> acc
       | f # fs \<Rightarrow> Some (last (f # fs))))"
proof (induction names arbitrary: acc)
  case Nil
  then show ?case by simp
next
  case (Cons name names)
  show ?case
  proof (cases "suffix ''_windows.exe'' name")
    case True
    then show ?thesis by simp
  next
    case False
    show ?thesis
    proof (cases "suffix ''_win10.exe'' name")
      case True
      then show ?thesis using False Cons [of "Some name"] by (simp split: list.splits)
    next
      case no: False
      then show ?thesis using False Cons [of acc] by simp
    qed
  qed
qed

lemma find_None_takeWhile: "find P xs = None \<Longrightarrow> takeWhile (\<lambda>x. \<not> P x) xs = xs"
  by (induction xs) (auto split: if_splits)

lemma suffix_nonempty: "suffix (c # cs) f \<Longrightarrow> f \<noteq> []"
  by auto

lemma windows_target:
  "(case windows_scan names None of (w, w10) \<Rightarrow> or_else (or_else w w10) None) =
     (case find (suffix ''_windows.exe'') names of
        Some f \<Rightarrow> Some f
      | None \<Rightarrow> (case filter (suffix ''_win10.exe'') names of
                   [] \<Rightarrow> None
                 | f # fs \<Rightarrow> Some (last (f # fs))))"
proof (cases "find (suffix ''_windows.exe'') names")
  case None
  show ?thesis
  proof (cases "filter (suffix ''_win10.exe'') names")
    case Nil
    then show ?thesis
      using None by (simp add: windows_scan_result find_None_takeWhile or_else_def)
  next
    case (Cons f fs)
    have "last (f # fs) \<in> set (filter (suffix ''_win10.exe'') names)"
      unfolding Cons by (rule last_in_set) simp
    then have "suffix ''_win10.exe'' (last (f # fs))" by simp
    then have "last (f # fs) \<noteq> []" by (rule suffix_nonempty)
    then show ?thesis
      using None Cons by (simp add: windows_scan_result find_None_takeWhile or_else_def)
  qed
next
  case (Some f)
  then have "suffix ''_windows.exe'' f" by (auto simp: find_Some_iff)
  then have "f \<noteq> []" by (rule suffix_nonempty)
  then show ?thesis using Some by (simp add: windows_scan_result or_else_def)
qed

lemma major_of_11_2_0: "major_of ''11.2.0'' = Fin 11"
  by (simp add: major_of_def at_index_def parseInt_digits is_digit_def digit_val_def
      radix_val_def to_double_numeral)

lemma CUDA_LINKS_11_2_0: "CUDA_LINKS ''11.2.0'' = None"
  by (simp add: CUDA_LINKS_def CUDA_LINKS_entries_def)

lemmas manifest_eval = fetchMd5sum_def getMd5sumUrl_def major_of_11_2_0 jle_def get_ok_def
  example_client_def parse_md5sums_def obj_assign_def at_index_def Object_entries_def
  is_array_index_def is_digit_def

section \<open>The pattern of the Linux installers\<close>

lemma takeWhile_append_stop:
  "list_all P d \<Longrightarrow> r = [] \<or> \<not> P (hd r) \<Longrightarrow> takeWhile P (d @ r) = d \<and> dropWhile P (d @ r) = r"
  by (induction d) (cases r; auto)+

lemma digits1_append:
  assumes "d \<noteq> []" and "list_all is_digit d" and "r = [] \<or> \<not> is_digit (hd r)"
  shows "digits1 (d @ r) = Some (d, r)"
  using takeWhile_append_stop [OF assms(2,3)] assms(1) by (simp add: digits1_def)

lemma digits1_SomeD:
  assumes "digits1 s = Some (d, r)"
  shows "s = d @ r" and "d \<noteq> []" and "list_all is_digit d"
proof -
  have d: "d = takeWhile is_digit s" "r = dropWhile is_digit s" "d \<noteq> []"
    using assms by (auto simp: digits1_def Let_def split: if_splits)
  show "s = d @ r" by (simp add: d)
  show "d \<noteq> []" by (rule d(3))
  show "list_all is_digit d"
    unfolding d(1) list_all_iff by (auto dest: set_takeWhileD)
qed

lemma strip_prefix_append: "strip_prefix p (p @ r) = Some r"
  by (simp add: strip_prefix_def)

lemma strip_prefix_SomeD: "strip_prefix p s = Some r \<Longrightarrow> s = p @ r"
  by (auto simp: strip_prefix_def split: if_splits) (metis append_take_drop_id)

lemma dot_groups_one:
  "dot_groups (Suc 0) s =
     (case strip_prefix ''.'' s of
        None \<Rightarrow> ([], s)
      | Some cs \<Rightarrow> (case digits1 cs of None \<Rightarrow> ([], s) | Some (d, r) \<Rightarrow> (''.'' @ d, r)))"
  by (cases s) (auto simp: strip_prefix_def split: option.splits)

lemma version_token_one_SomeD:
  assumes "version_token (Suc 0) s = Some (tok, r)"
  shows "s = tok @ r \<and>
    (\<exists>d1 d2 opt. tok = d1 @ ''.'' @ d2 @ opt
       \<and> d1 \<noteq> [] \<and> list_all is_digit d1 \<and> d2 \<noteq> [] \<and> list_all is_digit d2
       \<and> (opt = [] \<or> (\<exists>d3. d3 \<noteq> [] \<and> list_all is_digit d3 \<and> opt = ''.'' @ d3)))"
proof -
  from assms obtain d1 r1 r1' d2 r2 t where
    a: "digits1 s = Some (d1, r1)" "strip_prefix ''.'' r1 = Some r1'"
      "digits1 r1' = Some (d2, r2)" "dot_groups (Suc 0) r2 = (t, r)" "tok = d1 @ ''.'' @ d2 @ t"
    by (auto simp: version_token_def split: option.splits prod.splits)
  note d1 = digits1_SomeD [OF a(1)] and d2 = digits1_SomeD [OF a(3)]
    and p = strip_prefix_SomeD [OF a(2)]
  note a4 = a(4) [unfolded dot_groups_one]
  have t: "r2 = t @ r \<and> (t = [] \<or> (\<exists>d3. d3 \<noteq> [] \<and> list_all is_digit d3 \<and> t = ''.'' @ d3))"
  proof (cases "strip_prefix ''.'' r2")
    case None
    then show ?thesis using a4 by simp
  next
    case (Some cs)
    show ?thesis
    proof (cases "digits1 cs")
      case None
      then show ?thesis using a4 Some by simp
    next
      case inner: (Some dr)
      obtain d3 r3 where dr: "dr = (d3, r3)" by (cases dr)
      note d3 = digits1_SomeD [OF inner [unfolded dr]]
      have "t = ''.'' @ d3" "r = r3" using a4 Some inner dr by simp_all
      then show ?thesis using d3 strip_prefix_SomeD [OF Some] by auto
    qed
  qed
  have "s = tok @ r" using d1(1) p d2(1) t a(5) by simp
  then show ?thesis using a(5) d1(2,3) d2(2,3) t by blast
qed

lemma version_token_one_append:
  assumes "d1 \<noteq> []" "list_all is_digit d1" "d2 \<noteq> []" "list_all is_digit d2"
    and "opt = [] \<or> (\<exists>d3. d3 \<noteq> [] \<and> list_all is_digit d3 \<and> opt = ''.'' @ d3)"
    and "r = c # r'" and "\<not> is_digit c" and "c \<noteq> CHR ''.''"
  shows "version_token (Suc 0) (d1 @ ''.'' @ d2 @ opt @ r) = Some (d1 @ ''.'' @ d2 @ opt, r)"
proof -
  have nd: "\<not> is_digit CHR ''.''" by (simp add: is_digit_def)
  have 1: "digits1 (d1 @ ''.'' @ d2 @ opt @ r) = Some (d1, ''.'' @ d2 @ opt @ r)"
    using assms(1,2) nd by (intro digits1_append) auto
  have 2: "strip_prefix ''.'' (''.'' @ d2 @ opt @ r) = Some (d2 @ opt @ r)"
    by (rule strip_prefix_append)
  have 3: "digits1 (d2 @ opt @ r) = Some (d2, opt @ r)"
    using assms(3-8) nd by (intro digits1_append) auto
  have 4: "dot_groups (Suc 0) (opt @ r) = (opt, r)"
  proof (cases "opt = []")
    case True
    then show ?thesis unfolding dot_groups_one using assms(6,8) by (simp add: strip_prefix_def)
  next
    case False
    then obtain d3 where d3: "d3 \<noteq> []" "list_all is_digit d3" "opt = ''.'' @ d3"
      using assms(5) by blast
    have "digits1 (d3 @ r) = Some (d3, r)"
      using d3 assms(6,7) by (intro digits1_append) auto
    then show ?thesis
      unfolding d3(3) dot_groups_one by (simp add: strip_prefix_def)
  qed
  show ?thesis
    unfolding version_token_def 1 using 2 3 4 by simp
qed

lemma match_at_iff:
  assumes "tail = c # t" and "\<not> is_digit c" and "c \<noteq> CHR ''.''"
  shows "match_at version tail s \<longleftrightarrow>
    (\<exists>d1 d2 opt post. s = ''cuda_'' @ version @ ''_'' @ d1 @ ''.'' @ d2 @ opt @ tail @ post
       \<and> d1 \<noteq> [] \<and> list_all is_digit d1 \<and> d2 \<noteq> [] \<and> list_all is_digit d2
       \<and> (opt = [] \<or> (\<exists>d3. d3 \<noteq> [] \<and> list_all is_digit d3 \<and> opt = ''.'' @ d3)))"
  (is "?l \<longleftrightarrow> ?r")
proof
  assume ?l
  then obtain r tok r' post where
    a: "strip_prefix (''cuda_'' @ version @ ''_'') s = Some r"
      "version_token (Suc 0) r = Some (tok, r')" "strip_prefix tail r' = Some post"
    by (auto simp: match_at_def split: option.splits)
  from version_token_one_SomeD [OF a(2)] obtain d1 d2 opt where
    b: "r = tok @ r'" "tok = d1 @ ''.'' @ d2 @ opt"
      "d1 \<noteq> []" "list_all is_digit d1" "d2 \<noteq> []" "list_all is_digit d2"
      "opt = [] \<or> (\<exists>d3. d3 \<noteq> [] \<and> list_all is_digit d3 \<and> opt = ''.'' @ d3)"
    by blast
  have "s = ''cuda_'' @ version @ ''_'' @ d1 @ ''.'' @ d2 @ opt @ tail @ post"
    using strip_prefix_SomeD [OF a(1)] strip_prefix_SomeD [OF a(3)] b(1,2) by simp
  then show ?r using b(3-7) by blast
next
  assume ?r
  then obtain d1 d2 opt post where
    b: "s = ''cuda_'' @ version @ ''_'' @ d1 @ ''.'' @ d2 @ opt @ tail @ post"
      "d1 \<noteq> []" "list_all is_digit d1" "d2 \<noteq> []" "list_all is_digit d2"
      "opt = [] \<or> (\<exists>d3. d3 \<noteq> [] \<and> list_all is_digit d3 \<and> opt = ''.'' @ d3)"
    by blast
  have 1: "strip_prefix (''cuda_'' @ version @ ''_'') s = Some (d1 @ ''.'' @ d2 @ opt @ tail @ post)"
    unfolding b(1) using strip_prefix_append [of "''cuda_'' @ version @ ''_''"] by simp
  have 2: "version_token (Suc 0) (d1 @ ''.'' @ d2 @ opt @ (tail @ post))
      = Some (d1 @ ''.'' @ d2 @ opt, tail @ post)"
    using b(2-6) assms by (intro version_token_one_append [where c = c and r' = "t @ post"]) auto
  show ?l
    unfolding match_at_def 1 using 2 by (simp add: strip_prefix_append)
qed

lemma pattern_matches_iff:
  assumes "tail = c # t" and "\<not> is_digit c" and "c \<noteq> CHR ''.''"
  shows "pattern_matches version tail filename \<longleftrightarrow>
    (\<exists>pre d1 d2 opt post.
       filename = pre @ ''cuda_'' @ version @ ''_'' @ d1 @ ''.'' @ d2 @ opt @ tail @ post
       \<and> d1 \<noteq> [] \<and> list_all is_digit d1 \<and> d2 \<noteq> [] \<and> list_all is_digit d2
       \<and> (opt = [] \<or> (\<exists>d3. d3 \<noteq> [] \<and> list_all is_digit d3 \<and> opt = ''.'' @ d3)))"
  (is "?l \<longleftrightarrow> ?r")
proof
  assume ?l
  then obtain s where s: "suffix s filename" "match_at version tail s"
    by (auto simp: pattern_matches_def list_ex_iff)
  from s(1) obtain pre where pre: "filename = pre @ s" by (auto simp: suffix_def)
  from s(2) [unfolded match_at_iff [OF assms]] obtain d1 d2 opt post where
    b: "s = ''cuda_'' @ version @ ''_'' @ d1 @ ''.'' @ d2 @ opt @ tail @ post"
      "d1 \<noteq> [] \<and> list_all is_digit d1 \<and> d2 \<noteq> [] \<and> list_all is_digit d2
       \<and> (opt = [] \<or> (\<exists>d3. d3 \<noteq> [] \<and> list_all is_digit d3 \<and> opt = ''.'' @ d3))"
    by blast
  show ?r
    apply (rule exI [of _ pre], rule exI [of _ d1], rule exI [of _ d2], rule exI [of _ opt],
        rule exI [of _ post])
    using pre b by simp
next
  assume ?r
  then obtain pre d1 d2 opt post where
    b: "filename = pre @ ''cuda_'' @ version @ ''_'' @ d1 @ ''.'' @ d2 @ opt @ tail @ post"
      "d1 \<noteq> [] \<and> list_all is_digit d1 \<and> d2 \<noteq> [] \<and> list_all is_digit d2
       \<and> (opt = [] \<or> (\<exists>d3. d3 \<noteq> [] \<and> list_all is_digit d3 \<and> opt = ''.'' @ d3))"
    by blast
  let ?s = "''cuda_'' @ version @ ''_'' @ d1 @ ''.'' @ d2 @ opt @ tail @ post"
  have "match_at version tail ?s"
    unfolding match_at_iff [OF assms]
    apply (rule exI [of _ d1], rule exI [of _ d2], rule exI [of _ opt], rule exI [of _ post])
    using b(2) by simp
  moreover have "suffix ?s filename" unfolding b(1) suffix_def by blast
  ultimately show ?l
    by (auto simp: pattern_matches_def list_ex_iff)
qed

lemma linux_scan_find: "linux_scan version tail names = find (pattern_matches version tail) names"
  by (induction names) auto

section \<open>Versions of major component 11 or more\<close>

lemma split_on_components:
  "p \<in> set (split_on sep s) \<Longrightarrow> set p \<subseteq> set s - {sep}"
proof (induction s arbitrary: p)
  case Nil
  then show ?case by simp
next
  case (Cons c cs)
  show ?case
  proof (cases "c = sep")
    case True
    then show ?thesis using Cons by auto
  next
    case False
    obtain q qs where q: "split_on sep cs = q # qs"
      using split_on_not_Nil [of sep cs] by (cases "split_on sep cs") auto
    then have "p = c # q \<or> p \<in> set qs" using Cons.prems False by simp
    then show ?thesis
    proof
      assume "p = c # q"
      moreover have "set q \<subseteq> set cs - {sep}" using Cons.IH [of q] q by simp
      ultimately show ?thesis using False by auto
    next
      assume "p \<in> set qs"
      then have "set p \<subseteq> set cs - {sep}" using Cons.IH [of p] q by simp
      then show ?thesis by auto
    qed
  qed
qed

lemma parseInt_empty: "parseInt [] radix = NaN"
  by (simp add: parseInt_def trim_start_def signed_part_def Let_def)

lemma is_double_ten: "is_double (Fin 10)"
  using to_double_is_double [of 10] by (simp add: to_double_numeral)

lemma major_of_eleven:
  assumes "list_all (\<lambda>c. is_digit c \<or> c = CHR ''.'') version"
    and "jle (Fin 11) (major_of version)"
  shows "\<not> jless (compareVersions version START_SUPPORTED_CUDA_VERSION) (Fin 0)"
    and "\<not> jle (major_of version) (Fin 10)"
proof -
  obtain major rest where sp: "split_on CHR ''.'' version = major # rest"
    using split_on_not_Nil [of "CHR ''.''" version] by (cases "split_on CHR ''.'' version") auto
  have "set major \<subseteq> set version - {CHR ''.''}"
    by (rule split_on_components) (simp add: sp)
  then have dig: "list_all is_digit major"
    using assms(1) by (auto simp: list_all_iff)
  have ne: "major \<noteq> []"
  proof
    assume "major = []"
    then have "major_of version = NaN" by (simp add: major_of_def sp at_index_0 parseInt_empty)
    then show False using assms(2) by (simp add: jle_def)
  qed
  define n where "n = radix_val 10 major"
  have mo: "major_of version = to_double (of_int n)"
    unfolding n_def by (rule major_of_digits [OF sp dig ne])
  have n: "11 \<le> n"
  proof (rule ccontr)
    assume "\<not> 11 \<le> n"
    moreover have "0 \<le> n" unfolding n_def using radix_val_bounds [OF dig] by simp
    ultimately have b: "\<bar>n\<bar> < 2 ^ 53" and r: "rat_of_int n < 11" by simp_all
    have "major_of version = Fin (of_int n)"
      unfolding mo by (rule to_double_of_int [OF b])
    then show False using assms(2) r by (auto simp: jle_def)
  qed
  note big = to_double_above_ten [OF n]
  show "\<not> jle (major_of version) (Fin 10)" unfolding mo by (rule big(1))
  have N: "Number major = to_double (of_int n)"
    unfolding n_def by (rule Number_digits [OF dig ne])
  define x where "x = to_double (rat_of_int n)"
  have x: "x \<noteq> NaN" "\<not> jle x (Fin 10)" "is_double x"
    using big by (simp_all add: x_def to_double_is_double)
  then have x10: "x \<noteq> Fin 10" "x \<noteq> Fin 0" "jless (Fin 10) x"
    using jless_total [of x "Fin 10"] by (auto simp: jle_def)
  have oz: "or_zero (Some x) = x" using x(1) x10(2) by (simp add: or_zero_def)
  have "compareVersions version START_SUPPORTED_CUDA_VERSION = jsub x (Fin 10)"
    unfolding compareVersions_parts START_parts sp list.map N x_def [symmetric]
    using x10(1) oz by (simp add: or_zero_Fin)
  moreover have "jless (Fin 0) (jsub x (Fin 10))"
    using x(3) is_double_ten x10(3) by (rule jsub_sign(2))
  ultimately show "\<not> jless (compareVersions version START_SUPPORTED_CUDA_VERSION) (Fin 0)"
    using jless_asym by simp
qed

section \<open>The comparator and the specification\<close>












section \<open>Names that every object inherits\<close>

text \<open>
  \<^verbatim>\<open>version in CUDA_LINKS\<close> also holds of the property names that the table inherits
  from \<^verbatim>\<open>Object.prototype\<close>. None of them is a number, so each compares below the
  minimum supported version and is rejected before the table is read.
\<close>

lemma inherited_names_unsupported:
  "\<forall>name \<in> set [''constructor'', ''hasOwnProperty'', ''isPrototypeOf'', ''propertyIsEnumerable'',
       ''toLocaleString'', ''toString'', ''valueOf'', ''__proto__'', ''__defineGetter__'',
       ''__defineSetter__'', ''__lookupGetter__'', ''__lookupSetter__''].
     Number name = NaN
     \<and> jless (compareVersions name START_SUPPORTED_CUDA_VERSION) (Fin 0)"
  by (simp add: compareVersions_parts START_parts Number_def trim_def is_space_def
      non_decimal_def signed_part_def unsigned_decimal_def is_digit_def Let_def
      or_zero_def to_double_numeral)

section \<open>The comparator\<close>




section \<open>Normalisation of scraped versions\<close>

text \<open>
  Claim C9. For a version whose major component is a decimal numeral of value at most 10,
  \<^verbatim>\<open>normalizeCudaVersion\<close> returns the first two dot-separated components joined by a
  dot; for a major component of value 11 or more it returns the version unchanged. So
  \<^verbatim>\<open>10.2.89\<close> becomes \<^verbatim>\<open>10.2\<close> and \<^verbatim>\<open>11.0.3\<close> stays as it is.
\<close>

theorem normalize_truncates_legacy_versions:
  assumes "split_on CHR ''.'' version = major # rest"
    and "list_all is_digit major" and "major \<noteq> []"
  shows "(radix_val 10 major \<le> 10 \<longrightarrow>
            normalizeCudaVersion version = join ''.'' (take 2 (major # rest)))
       \<and> (11 \<le> radix_val 10 major \<longrightarrow> normalizeCudaVersion version = version)"
proof -
  have m: "parseInt major (Some 10) = to_double (of_int (radix_val 10 major))"
    using assms(2,3) by (rule parseInt_digits)
  have nn: "0 \<le> radix_val 10 major" using radix_val_bounds [OF assms(2)] by simp
  show ?thesis
  proof (intro conjI impI)
    assume "radix_val 10 major \<le> 10"
    then have "\<bar>radix_val 10 major\<bar> < 2 ^ 53" using nn by simp
    then have "parseInt major (Some 10) = Fin (of_int (radix_val 10 major))"
      unfolding m by (rule to_double_of_int)
    moreover have "rat_of_int (radix_val 10 major) \<le> 10"
      using \<open>radix_val 10 major \<le> 10\<close> by (metis of_int_le_iff of_int_numeral)
    then have "jle (Fin (rat_of_int (radix_val 10 major))) (Fin 10)"
      by (auto simp: jle_def)
    ultimately show "normalizeCudaVersion version = join ''.'' (take 2 (major # rest))"
      by (simp add: normalizeCudaVersion_def assms(1) at_index_0)
  next
    assume "11 \<le> radix_val 10 major"
    from to_double_above_ten(1,2) [OF this]
    show "normalizeCudaVersion version = version"
      by (simp add: normalizeCudaVersion_def assms(1) at_index_0 m)
  qed
qed

theorem normalize_truncates_legacy_versions_witness:
  "normalizeCudaVersion ''10.2.89'' = ''10.2'' \<and> normalizeCudaVersion ''11.0.3'' = ''11.0.3''"
  using normalize_truncates_legacy_versions [of "''10.2.89''" "''10''" "[''2'', ''89'']"]
    normalize_truncates_legacy_versions [of "''11.0.3''" "''11''" "[''0'', ''3'']"]
  by (simp add: is_digit_def digit_val_def radix_val_def)

section \<open>The catalog of versions\<close>

text \<open>
  Claim C5. When the three fetches of the discovery succeed, the catalog is the union of
  the three scraped lists and the static list of legacy versions, restricted to the
  versions that are not below the minimum supported version; it has no duplicate, it is
  sorted ascending under \<^verbatim>\<open>compareVersions\<close>, and no entry of it is below the minimum,
  whatever the listings held.
\<close>

theorem catalog_is_sorted_filtered_union:
  assumes "fetchRedistribVersions client = Inr redistribVersions"
    and "fetchArchiveVersions client = Inr archiveVersions"
    and "fetchOpensourceVersions client = Inr opensourceVersions"
  shows "\<exists>versions. fetchAvailableCudaVersions client = Inr versions
      \<and> set versions =
          {v \<in> set redistribVersions \<union> set archiveVersions \<union> set opensourceVersions
                \<union> set OLD_CUDA_VERSIONS.
             jle (Fin 0) (compareVersions v START_SUPPORTED_CUDA_VERSION)}
      \<and> distinct versions
      \<and> sorted_wrt (\<lambda>a b. \<not> jless (Fin 0) (compareVersions a b)) versions
      \<and> (\<forall>v \<in> set versions. \<not> jless (compareVersions v START_SUPPORTED_CUDA_VERSION) (Fin 0))"
proof -
  let ?catalog = "filter (\<lambda>v. jle (Fin 0) (compareVersions v START_SUPPORTED_CUDA_VERSION))
      (sortVersions (set_add_all []
        (redistribVersions @ archiveVersions @ opensourceVersions @ OLD_CUDA_VERSIONS)))"
  note p = catalog_properties [OF assms]
  have "\<forall>v \<in> set ?catalog. \<not> jless (compareVersions v START_SUPPORTED_CUDA_VERSION) (Fin 0)"
    by (simp add: compareVersions_ge_iff)
  moreover have "sorted_wrt (\<lambda>a b. \<not> jless (Fin 0) (compareVersions a b)) ?catalog"
    using p(4) by (simp add: version_le_def [abs_def])
  ultimately show ?thesis using p(1,2,3) by blast
qed

theorem catalog_is_sorted_filtered_union_witness:
  "\<exists>versions.
     fetchAvailableCudaVersions
       (example_client ''redistrib_12.1.json CUDA Toolkit 9.2 cuda-11-0-download'') = Inr versions
     \<and> ''12.1'' \<in> set versions \<and> ''11.0'' \<in> set versions \<and> ''9.2'' \<notin> set versions
     \<and> distinct versions
     \<and> sorted_wrt (\<lambda>a b. \<not> jless (Fin 0) (compareVersions a b)) versions"
proof -
  from catalog_is_sorted_filtered_union [OF example_redistrib example_archive example_opensource]
  obtain versions where v:
    "fetchAvailableCudaVersions
       (example_client ''redistrib_12.1.json CUDA Toolkit 9.2 cuda-11-0-download'') = Inr versions"
    "set versions =
       {v \<in> set [''12.1''] \<union> set [''9.2'', ''11.0''] \<union> set [] \<union> set OLD_CUDA_VERSIONS.
          jle (Fin 0) (compareVersions v START_SUPPORTED_CUDA_VERSION)}"
    "distinct versions"
    "sorted_wrt (\<lambda>a b. \<not> jless (Fin 0) (compareVersions a b)) versions"
    by blast
  have "''12.1'' \<in> set versions" "''11.0'' \<in> set versions"
    unfolding v(2) by (simp_all add: version_eval)
  moreover have "''9.2'' \<notin> set versions"
    unfolding v(2) by (simp add: version_eval OLD_CUDA_VERSIONS_def)
  ultimately show ?thesis using v(1,3,4) by blast
qed



section \<open>Resolving a specifier\<close>

text \<open>
  Claim C1. Resolving a specifier against a catalog is a match of four cases: the token
  \<^verbatim>\<open>latest\<close> yields the last entry of the catalog (nothing when the catalog is empty);
  else a specifier that is an entry of the catalog is returned unchanged; else the last
  entry that starts with the specifier followed by a dot is returned; else nothing is
  found, which is a value (\<^verbatim>\<open>undefined\<close>) and no error. In a catalog sorted ascending
  under the comparator, the last entry and the last match are the numerically highest.
\<close>

theorem resolve_is_four_case_match:
  "match_version versions inputVersion =
     (if inputVersion = ''latest'' then (if versions = [] then None else Some (last versions))
      else if inputVersion \<in> set versions then Some inputVersion
      else (case filter (prefix (inputVersion @ ''.'')) versions of
              [] \<Rightarrow> None
            | m # ms \<Rightarrow> Some (last (m # ms))))
   \<and> (fetchAvailableCudaVersions client = Inr versions \<longrightarrow>
        findCudaVersion client inputVersion = Inr (match_version versions inputVersion))
   \<and> (sorted_wrt (\<lambda>a b. \<not> jless (Fin 0) (compareVersions a b)) versions \<longrightarrow>
        (\<forall>m. match_version versions inputVersion = Some m \<longrightarrow>
           m \<in> set versions \<and>
           (inputVersion = ''latest'' \<longrightarrow>
              (\<forall>w \<in> set versions. \<not> jless (Fin 0) (compareVersions w m))) \<and>
           (inputVersion \<noteq> ''latest'' \<and> inputVersion \<notin> set versions \<longrightarrow>
              prefix (inputVersion @ ''.'') m \<and>
              (\<forall>w \<in> set versions. prefix (inputVersion @ ''.'') w \<longrightarrow>
                 \<not> jless (Fin 0) (compareVersions w m)))))"
proof (intro conjI impI allI)
  let ?p = "prefix (inputVersion @ ''.'')"
  have "take (length q) v = q \<longleftrightarrow> prefix q v" for q v :: string
  proof
    assume "take (length q) v = q"
    then show "prefix q v" using take_is_prefix [of "length q" v] by simp
  next
    assume "prefix q v"
    then obtain zs where "v = q @ zs" by (auto simp: prefix_def)
    then show "take (length q) v = q" by simp
  qed
  then have pre: "(\<lambda>v. take (length (inputVersion @ ''.'')) v = inputVersion @ ''.'') = ?p"
    by (simp only: fun_eq_iff) simp
  show eq: "match_version versions inputVersion =
     (if inputVersion = ''latest'' then (if versions = [] then None else Some (last versions))
      else if inputVersion \<in> set versions then Some inputVersion
      else (case filter ?p versions of [] \<Rightarrow> None | m # ms \<Rightarrow> Some (last (m # ms))))"
    unfolding match_version_def Let_def pre at_int_last
    by (simp split: list.splits)
  show "findCudaVersion client inputVersion = Inr (match_version versions inputVersion)"
    if "fetchAvailableCudaVersions client = Inr versions"
    using that by (simp add: findCudaVersion_def)
  fix m
  assume s: "sorted_wrt (\<lambda>a b. \<not> jless (Fin 0) (compareVersions a b)) versions"
    and m: "match_version versions inputVersion = Some m"
  have s': "sorted_wrt version_le versions" using s by (simp add: version_le_def [abs_def])
  have fm: "filter ?p versions = f # fs \<Longrightarrow> last (f # fs) \<in> set (filter ?p versions)" for f fs
    by (metis last_in_set list.distinct(1))
  show "m \<in> set versions"
  proof (cases "inputVersion = ''latest''")
    case True
    then have "versions \<noteq> []" "m = last versions"
      using m unfolding eq by (auto split: if_splits)
    then show ?thesis by simp
  next
    case False
    show ?thesis
    proof (cases "inputVersion \<in> set versions")
      case True
      then show ?thesis using m False unfolding eq by simp
    next
      case notin: False
      then obtain f fs where "filter ?p versions = f # fs" "m = last (f # fs)"
        using m False unfolding eq by (auto split: list.splits)
      then have "m \<in> set (filter ?p versions)" using fm by blast
      then show ?thesis by simp
    qed
  qed
  show "\<forall>w \<in> set versions. \<not> jless (Fin 0) (compareVersions w m)" if "inputVersion = ''latest''"
  proof
    fix w assume w: "w \<in> set versions"
    have "m = last versions" using m that unfolding eq by (auto split: if_splits)
    then show "\<not> jless (Fin 0) (compareVersions w m)"
      using sorted_wrt_last [OF s' w version_le_refl] by (simp add: version_le_def)
  qed
  assume c: "inputVersion \<noteq> ''latest'' \<and> inputVersion \<notin> set versions"
  then obtain f fs where f: "filter ?p versions = f # fs" "m = last (f # fs)"
    using m unfolding eq by (auto split: list.splits)
  show "?p m" using fm [OF f(1)] f(2) by simp
  show "\<forall>w \<in> set versions. ?p w \<longrightarrow> \<not> jless (Fin 0) (compareVersions w m)"
  proof (intro ballI impI)
    fix w assume "w \<in> set versions" "?p w"
    then have w: "w \<in> set (filter ?p versions)" by simp
    have "sorted_wrt version_le (filter ?p versions)" using s' by (rule sorted_wrt_filter)
    from sorted_wrt_last [OF this w version_le_refl]
    show "\<not> jless (Fin 0) (compareVersions w m)"
      unfolding f by (simp add: version_le_def)
  qed
qed

theorem resolve_is_four_case_match_witness:
  "match_version [''10.0'', ''10.1'', ''10.2'', ''11.0.1'', ''11.0.3''] ''latest'' = Some ''11.0.3''
   \<and> match_version [''10.0'', ''10.1'', ''10.2'', ''11.0.1'', ''11.0.3''] ''10.1'' = Some ''10.1''
   \<and> match_version [''10.0'', ''10.1'', ''10.2'', ''11.0.1'', ''11.0.3''] ''10'' = Some ''10.2''
   \<and> match_version [''10.0'', ''10.1'', ''10.2'', ''11.0.1'', ''11.0.3''] ''11.0'' = Some ''11.0.3''
   \<and> match_version [''10.0'', ''10.1'', ''10.2'', ''11.0.1'', ''11.0.3''] ''9.9'' = None
   \<and> \<not> jless (Fin 0) (compareVersions ''10.0'' ''10.2'')
   \<and> \<not> jless (Fin 0) (compareVersions ''10.1'' ''10.2'')"
proof -
  let ?vs = "[''10.0'', ''10.1'', ''10.2'', ''11.0.1'', ''11.0.3'']"
  note r = resolve_is_four_case_match [where versions = ?vs]
  have a: "match_version ?vs ''latest'' = Some ''11.0.3''"
    using r [of "''latest''", THEN conjunct1] by simp
  have b: "match_version ?vs ''10.1'' = Some ''10.1''"
    using r [of "''10.1''", THEN conjunct1] by simp
  have c: "match_version ?vs ''10'' = Some ''10.2''"
    using r [of "''10''", THEN conjunct1] by simp
  have d: "match_version ?vs ''11.0'' = Some ''11.0.3''"
    using r [of "''11.0''", THEN conjunct1] by simp
  have e: "match_version ?vs ''9.9'' = None"
    using r [of "''9.9''", THEN conjunct1] by simp
  have s: "sorted_wrt (\<lambda>a b. \<not> jless (Fin 0) (compareVersions a b)) ?vs"
    by (simp add: version_eval)
  have "\<forall>w \<in> set ?vs. prefix (''10'' @ ''.'') w \<longrightarrow> \<not> jless (Fin 0) (compareVersions w ''10.2'')"
    using r [of "''10''", THEN conjunct2, THEN conjunct2, rule_format, OF s c]
    by (simp only: list.set) simp
  then have "\<not> jless (Fin 0) (compareVersions ''10.0'' ''10.2'')"
    and "\<not> jless (Fin 0) (compareVersions ''10.1'' ''10.2'')"
    by simp_all
  then show ?thesis using a b c d e by simp
qed

section \<open>Locating the installer\<close>

text \<open>
  Claim C8. \<^verbatim>\<open>getCudaInstallerUrl\<close> rejects, without reading the table and without a
  request, every version that compares below the minimum supported version (with the
  error of an unsupported version), and every version of major component at most 10 asked
  for Linux on the ARM64 server architecture (with the error of an unsupported platform,
  unless the version is below the minimum already). A version whose first component is
  a numeral below 10 is below the minimum; \<^verbatim>\<open>10.0\<close> for Linux on ARM64 raises the
  error of the platform.
\<close>

theorem unsupported_requests_rejected_first:
  "(jless (compareVersions version START_SUPPORTED_CUDA_VERSION) (Fin 0) \<longrightarrow>
      getCudaInstallerUrl links client version os arch = ([], Inl (UnsupportedVersion version)))
   \<and> (jle (major_of version) (Fin 10) \<longrightarrow>
      getCudaInstallerUrl links client version LINUX ARM64_SBSA =
        ([], Inl (if jless (compareVersions version START_SUPPORTED_CUDA_VERSION) (Fin 0)
                  then UnsupportedVersion version else UnsupportedPlatform version)))
   \<and> (\<forall>major rest. split_on CHR ''.'' version = major # rest \<and> list_all is_digit major
        \<and> major \<noteq> [] \<longrightarrow>
        (radix_val 10 major < 10 \<longrightarrow>
           jless (compareVersions version START_SUPPORTED_CUDA_VERSION) (Fin 0)) \<and>
        (radix_val 10 major \<le> 10 \<longrightarrow> jle (major_of version) (Fin 10)))"
  using below_ten_unsupported major_at_most_ten
  by (auto simp: getCudaInstallerUrl_def Let_def)

theorem unsupported_requests_rejected_first_witness:
  "getCudaInstallerUrl CUDA_LINKS (example_client []) ''10.0'' LINUX ARM64_SBSA
     = ([], Inl (UnsupportedPlatform ''10.0''))
   \<and> getCudaInstallerUrl CUDA_LINKS (example_client []) ''9.2'' WINDOWS X86_64
     = ([], Inl (UnsupportedVersion ''9.2''))"
proof -
  note t = unsupported_requests_rejected_first [where links = CUDA_LINKS and client = "example_client []"]
  have a: "jle (major_of ''10.0'') (Fin 10)"
    using t [of "''10.0''", THEN conjunct2, THEN conjunct2, rule_format, of "''10''" "[''0'']"]
    by (simp add: is_digit_def digit_val_def radix_val_def)
  have b: "\<not> jless (compareVersions ''10.0'' START_SUPPORTED_CUDA_VERSION) (Fin 0)"
    by (simp add: version_eval)
  have c: "jless (compareVersions ''9.2'' START_SUPPORTED_CUDA_VERSION) (Fin 0)"
    using t [of "''9.2''", THEN conjunct2, THEN conjunct2, rule_format, of "''9''" "[''2'']"]
    by (simp add: is_digit_def digit_val_def radix_val_def)
  show ?thesis
    using t [of "''10.0''", THEN conjunct2, THEN conjunct1] a b
      t [of "''9.2''" WINDOWS X86_64, THEN conjunct1] c
    by simp
qed

text \<open>
  Claim C2. For a version that is a key of the legacy table and has passed the support
  check and the architecture gate, \<^verbatim>\<open>getCudaInstallerUrl\<close> returns the field of the
  entry for the pair of operating system and architecture as it stands, and makes no
  request: \<^verbatim>\<open>linuxX86Url\<close> for Linux on x86-64, \<^verbatim>\<open>linuxArm64Url\<close> for Linux on ARM64,
  \<^verbatim>\<open>windowsUrl\<close> for Windows on any architecture, each only when the field is not empty.
  When the field is empty (or the pair has no field) the function goes on with the later
  steps. In the table of the program the fields for Linux on x86-64 and for Windows are
  never empty; \<^verbatim>\<open>10.0\<close> for Linux on x86-64 yields the \<^verbatim>\<open>linuxX86Url\<close> of \<^verbatim>\<open>10.0\<close>.
\<close>

theorem table_url_returned_without_request:
  assumes "links version = Some link"
    and "\<not> jless (compareVersions version START_SUPPORTED_CUDA_VERSION) (Fin 0)"
    and "\<not> (jle (major_of version) (Fin 10) \<and> os = LINUX \<and> arch = ARM64_SBSA)"
  shows "(os = LINUX \<and> arch = X86_64 \<and> linuxX86Url link \<noteq> [] \<longrightarrow>
            getCudaInstallerUrl links client version os arch = ([], Inr (linuxX86Url link)))
       \<and> (os = LINUX \<and> arch = ARM64_SBSA \<and> linuxArm64Url link \<noteq> [] \<longrightarrow>
            getCudaInstallerUrl links client version os arch = ([], Inr (linuxArm64Url link)))
       \<and> (os = WINDOWS \<and> windowsUrl link \<noteq> [] \<longrightarrow>
            getCudaInstallerUrl links client version os arch = ([], Inr (windowsUrl link)))
       \<and> (\<not> (os = LINUX \<and> arch = X86_64 \<and> linuxX86Url link \<noteq> [])
          \<and> \<not> (os = LINUX \<and> arch = ARM64_SBSA \<and> linuxArm64Url link \<noteq> [])
          \<and> \<not> (os = WINDOWS \<and> windowsUrl link \<noteq> []) \<longrightarrow>
            getCudaInstallerUrl links client version os arch
              = locate_after_table links client version os arch)
       \<and> (links = CUDA_LINKS \<longrightarrow>
            (os = LINUX \<and> arch = X86_64 \<longrightarrow>
               getCudaInstallerUrl links client version os arch = ([], Inr (linuxX86Url link)))
          \<and> (os = WINDOWS \<longrightarrow>
               getCudaInstallerUrl links client version os arch = ([], Inr (windowsUrl link))))"
proof -
  have g: "getCudaInstallerUrl links client version os arch =
      (case table_url links version os arch of
         Some url \<Rightarrow> ([], Inr url)
       | None \<Rightarrow> locate_after_table links client version os arch)"
    using assms(2,3) by (auto simp: getCudaInstallerUrl_def Let_def)
  have f: "links = CUDA_LINKS \<Longrightarrow> linuxX86Url link \<noteq> [] \<and> windowsUrl link \<noteq> []"
    using assms(1) CUDA_LINKS_fields by blast
  have t: "table_url links version os arch =
      (if os = LINUX \<and> arch = X86_64 \<and> linuxX86Url link \<noteq> [] then Some (linuxX86Url link)
       else if os = LINUX \<and> arch = ARM64_SBSA \<and> linuxArm64Url link \<noteq> [] then Some (linuxArm64Url link)
       else if os = WINDOWS \<and> windowsUrl link \<noteq> [] then Some (windowsUrl link)
       else None)"
    by (simp add: table_url_def assms(1))
  show ?thesis
    unfolding g t using f by auto
qed

theorem table_url_returned_without_request_witness:
  "getCudaInstallerUrl CUDA_LINKS (example_client []) ''10.0'' LINUX X86_64 =
     ([], Inr ''http://developer.download.nvidia.com/compute/cuda/10.0/Prod/patches/1/cuda_10.0.130.1_linux.run'')
   \<and> getCudaInstallerUrl
        [''12.0'' \<mapsto> \<lparr>md5sumUrl = [], linuxX86Url = [], linuxArm64Url = [], windowsUrl = []\<rparr>]
        (example_client []) ''12.0'' LINUX X86_64
      = locate_after_table
        [''12.0'' \<mapsto> \<lparr>md5sumUrl = [], linuxX86Url = [], linuxArm64Url = [], windowsUrl = []\<rparr>]
        (example_client []) ''12.0'' LINUX X86_64"
proof -
  have s: "\<not> jless (compareVersions ''10.0'' START_SUPPORTED_CUDA_VERSION) (Fin 0)"
    "\<not> jless (compareVersions ''12.0'' START_SUPPORTED_CUDA_VERSION) (Fin 0)"
    by (simp_all add: version_eval)
  have a: "getCudaInstallerUrl CUDA_LINKS (example_client []) ''10.0'' LINUX X86_64 =
     ([], Inr ''http://developer.download.nvidia.com/compute/cuda/10.0/Prod/patches/1/cuda_10.0.130.1_linux.run'')"
    using table_url_returned_without_request
      [where links = CUDA_LINKS and version = "''10.0''" and os = LINUX and arch = X86_64
         and client = "example_client []", OF CUDA_LINKS_10_0 s(1)]
    by simp
  let ?links = "[''12.0'' \<mapsto> \<lparr>md5sumUrl = [], linuxX86Url = [], linuxArm64Url = [], windowsUrl = []\<rparr>]"
  have l: "?links ''12.0'' = Some \<lparr>md5sumUrl = [], linuxX86Url = [], linuxArm64Url = [], windowsUrl = []\<rparr>"
    by simp
  have b: "getCudaInstallerUrl ?links (example_client []) ''12.0'' LINUX X86_64
      = locate_after_table ?links (example_client []) ''12.0'' LINUX X86_64"
    using table_url_returned_without_request
      [where links = ?links and version = "''12.0''" and os = LINUX and arch = X86_64
         and client = "example_client []", OF l s(2)]
    by simp
  show ?thesis using a b by blast
qed

text \<open>
  Claim C4, which the code does not meet. The version \<^verbatim>\<open>10.3\<close> passes the support check,
  its major component is at most 10 and it is no key of the legacy table: for Linux on
  x86-64 and for Windows the fallback for CUDA 10 and earlier reads a field of the
  missing entry \<^verbatim>\<open>CUDA_LINKS[version]\<close>, which throws a TypeError.
\<close>

theorem legacy_fallback_reads_missing_entry:
  "\<not> jless (compareVersions ''10.3'' START_SUPPORTED_CUDA_VERSION) (Fin 0)
   \<and> jle (major_of ''10.3'') (Fin 10)
   \<and> CUDA_LINKS ''10.3'' = None
   \<and> (\<forall>client. getCudaInstallerUrl CUDA_LINKS client ''10.3'' LINUX X86_64 = ([], Inl TypeError))
   \<and> (\<forall>client arch. getCudaInstallerUrl CUDA_LINKS client ''10.3'' WINDOWS arch = ([], Inl TypeError))"
proof -
  have s: "\<not> jless (compareVersions ''10.3'' START_SUPPORTED_CUDA_VERSION) (Fin 0)"
    by (simp add: version_eval)
  have m: "jle (major_of ''10.3'') (Fin 10)"
    by (rule major_at_most_ten [of _ "''10''" "[''3'']"])
      (simp_all add: is_digit_def digit_val_def radix_val_def)
  have n: "CUDA_LINKS ''10.3'' = None"
    by (simp add: CUDA_LINKS_def CUDA_LINKS_entries_def)
  show ?thesis
    using s m n by (simp add: getCudaInstallerUrl_def table_url_def locate_after_table_def Let_def)
qed

text \<open>
  Claim C3. On Windows, for a version that is not served by the table or the legacy
  fallback and whose manifest is fetched, \<^verbatim>\<open>getCudaInstallerUrl\<close> selects the first file
  name of the manifest, in the order of \<^verbatim>\<open>Object.entries\<close>, that ends in
  \<^verbatim>\<open>_windows.exe\<close>; when there is none, the last one that ends in \<^verbatim>\<open>_win10.exe\<close>; when
  there is none either, it fails with the error of no matching installer. The scan stops
  at the first \<^verbatim>\<open>_windows.exe\<close>: the candidate \<^verbatim>\<open>_win10.exe\<close> it holds then is the last
  one before that file name.
\<close>

theorem windows_branch_selects_installer:
  assumes "\<not> jless (compareVersions version START_SUPPORTED_CUDA_VERSION) (Fin 0)"
    and "\<not> jle (major_of version) (Fin 10)"
    and "\<forall>link. links version = Some link \<longrightarrow> windowsUrl link = []"
    and "fetchMd5sum links client version = (requests, Inr md5sums)"
  shows "getCudaInstallerUrl links client version WINDOWS arch =
      (requests,
       case find (suffix ''_windows.exe'') (map fst (Object_entries md5sums)) of
         Some f \<Rightarrow> Inr (getDownloadUrl version ''local_installers'' f)
       | None \<Rightarrow>
           (case filter (suffix ''_win10.exe'') (map fst (Object_entries md5sums)) of
              [] \<Rightarrow> Inl (NoMatchingInstaller version WINDOWS arch)
            | f # fs \<Rightarrow> Inr (getDownloadUrl version ''local_installers'' (last (f # fs)))))
    \<and> windows_scan (map fst (Object_entries md5sums)) None =
        (find (suffix ''_windows.exe'') (map fst (Object_entries md5sums)),
         case filter (suffix ''_win10.exe'')
                (takeWhile (\<lambda>f. \<not> suffix ''_windows.exe'' f) (map fst (Object_entries md5sums))) of
           [] \<Rightarrow> None
         | f # fs \<Rightarrow> Some (last (f # fs)))"
proof
  let ?names = "map fst (Object_entries md5sums)"
  have t: "table_url links version WINDOWS arch = None"
    using assms(3) by (auto simp: table_url_def split: option.splits)
  have "getCudaInstallerUrl links client version WINDOWS arch =
      locate_by_manifest links client version WINDOWS arch"
    using assms(1,2) t by (simp add: getCudaInstallerUrl_def locate_after_table_def Let_def)
  also have "\<dots> =
      (case (case windows_scan ?names None of (w, w10) \<Rightarrow> or_else (or_else w w10) None) of
         None \<Rightarrow> (requests, Inl (NoMatchingInstaller version WINDOWS arch))
       | Some filename \<Rightarrow> (requests, Inr (getDownloadUrl version ''local_installers'' filename)))"
    by (simp add: locate_by_manifest_def assms(4) Let_def split: prod.splits)
  finally show "getCudaInstallerUrl links client version WINDOWS arch =
      (requests,
       case find (suffix ''_windows.exe'') ?names of
         Some f \<Rightarrow> Inr (getDownloadUrl version ''local_installers'' f)
       | None \<Rightarrow>
           (case filter (suffix ''_win10.exe'') ?names of
              [] \<Rightarrow> Inl (NoMatchingInstaller version WINDOWS arch)
            | f # fs \<Rightarrow> Inr (getDownloadUrl version ''local_installers'' (last (f # fs)))))"
    unfolding windows_target by (auto split: option.splits list.splits)
  show "windows_scan ?names None =
        (find (suffix ''_windows.exe'') ?names,
         case filter (suffix ''_win10.exe'') (takeWhile (\<lambda>f. \<not> suffix ''_windows.exe'' f) ?names) of
           [] \<Rightarrow> None
         | f # fs \<Rightarrow> Some (last (f # fs)))"
    by (rule windows_scan_result)
qed

theorem windows_branch_selects_installer_witness:
  "getCudaInstallerUrl CUDA_LINKS
     (example_client (''a x_win10.exe'' @ [CHR 0x0A] @ ''b y_windows.exe'' @ [CHR 0x0A]
                      @ ''c z_windows.exe''))
     ''11.2.0'' WINDOWS X86_64 =
   ([''https://developer.download.nvidia.com/compute/cuda/11.2.0/docs/sidebar/md5sum.txt''],
    Inr ''https://developer.download.nvidia.com/compute/cuda/11.2.0/local_installers/y_windows.exe'')
   \<and> getCudaInstallerUrl CUDA_LINKS
     (example_client (''a p_win10.exe'' @ [CHR 0x0A] @ ''b q_win10.exe'' @ [CHR 0x0A] @ ''c r.exe''))
     ''11.2.0'' WINDOWS X86_64 =
   ([''https://developer.download.nvidia.com/compute/cuda/11.2.0/docs/sidebar/md5sum.txt''],
    Inr ''https://developer.download.nvidia.com/compute/cuda/11.2.0/local_installers/q_win10.exe'')"
proof -
  have s: "\<not> jless (compareVersions ''11.2.0'' START_SUPPORTED_CUDA_VERSION) (Fin 0)"
    by (simp add: version_eval)
  have m: "\<not> jle (major_of ''11.2.0'') (Fin 10)"
    by (simp add: major_of_11_2_0 jle_def)
  have l: "\<forall>link. CUDA_LINKS ''11.2.0'' = Some link \<longrightarrow> windowsUrl link = []"
    by (simp add: CUDA_LINKS_11_2_0)
  have f1: "fetchMd5sum CUDA_LINKS
      (example_client (''a x_win10.exe'' @ [CHR 0x0A] @ ''b y_windows.exe'' @ [CHR 0x0A]
                       @ ''c z_windows.exe'')) ''11.2.0'' =
      ([''https://developer.download.nvidia.com/compute/cuda/11.2.0/docs/sidebar/md5sum.txt''],
       Inr [(''x_win10.exe'', ''a''), (''y_windows.exe'', ''b''), (''z_windows.exe'', ''c'')])"
    by (simp add: manifest_eval)
  have f2: "fetchMd5sum CUDA_LINKS
      (example_client (''a p_win10.exe'' @ [CHR 0x0A] @ ''b q_win10.exe'' @ [CHR 0x0A] @ ''c r.exe''))
      ''11.2.0'' =
      ([''https://developer.download.nvidia.com/compute/cuda/11.2.0/docs/sidebar/md5sum.txt''],
       Inr [(''p_win10.exe'', ''a''), (''q_win10.exe'', ''b''), (''r.exe'', ''c'')])"
    by (simp add: manifest_eval)
  show ?thesis
    using windows_branch_selects_installer [OF s m l f1, of X86_64, THEN conjunct1]
      windows_branch_selects_installer [OF s m l f2, of X86_64, THEN conjunct1]
    by (simp add: manifest_eval getDownloadUrl_def suffix_def)
qed

text \<open>
  Claim C7. On Linux, for a version of digits and dots whose major component is 11 or
  more and that the table does not serve, \<^verbatim>\<open>getCudaInstallerUrl\<close> fetches the manifest
  and takes the first file name, in the order of \<^verbatim>\<open>Object.entries\<close>, in which the
  pattern occurs: \<^verbatim>\<open>cuda_\<close>, the version, \<^verbatim>\<open>_\<close>, a driver version of two or three
  numerals joined by dots, and \<^verbatim>\<open>_linux.run\<close> for x86-64 or \<^verbatim>\<open>_linux_sbsa.run\<close> for the
  ARM64 server. The URL returned is the download host, the version, the directory
  \<^verbatim>\<open>local_installers\<close> and that file name; when no file name matches, the error of no
  matching installer. With \<^verbatim>\<open>cuda_11.2.0_460.27.04_linux.run\<close> in the manifest, the URL
  for \<^verbatim>\<open>11.2.0\<close> on Linux x86-64 ends in that file name under \<^verbatim>\<open>local_installers\<close>.
\<close>

theorem linux_branch_selects_installer:
  assumes "list_all (\<lambda>c. is_digit c \<or> c = CHR ''.'') version"
    and "jle (Fin 11) (major_of version)"
    and "\<forall>link. links version = Some link \<longrightarrow> linuxX86Url link = [] \<and> linuxArm64Url link = []"
    and "arch = X86_64 \<and> tail = ''_linux.run'' \<or> arch = ARM64_SBSA \<and> tail = ''_linux_sbsa.run''"
    and "fetchMd5sum links client version = (requests, Inr md5sums)"
  shows "getCudaInstallerUrl links client version LINUX arch =
      (requests,
       case find (pattern_matches version tail) (map fst (Object_entries md5sums)) of
         None \<Rightarrow> Inl (NoMatchingInstaller version LINUX arch)
       | Some filename \<Rightarrow>
           Inr (''https://developer.download.nvidia.com/compute/cuda/'' @ version
                @ ''/local_installers/'' @ filename))
    \<and> (\<forall>filename. pattern_matches version tail filename \<longleftrightarrow>
         (\<exists>pre d1 d2 opt post.
            filename = pre @ ''cuda_'' @ version @ ''_'' @ d1 @ ''.'' @ d2 @ opt @ tail @ post
            \<and> d1 \<noteq> [] \<and> list_all is_digit d1 \<and> d2 \<noteq> [] \<and> list_all is_digit d2
            \<and> (opt = [] \<or> (\<exists>d3. d3 \<noteq> [] \<and> list_all is_digit d3 \<and> opt = ''.'' @ d3))))"
proof
  let ?names = "map fst (Object_entries md5sums)"
  note m = major_of_eleven [OF assms(1,2)]
  have t: "table_url links version LINUX arch = None"
    using assms(3) by (auto simp: table_url_def split: option.splits)
  have "getCudaInstallerUrl links client version LINUX arch =
      locate_by_manifest links client version LINUX arch"
    using m t by (simp add: getCudaInstallerUrl_def locate_after_table_def Let_def)
  also have "\<dots> =
      (case or_else (linux_scan version tail ?names) None of
         None \<Rightarrow> (requests, Inl (NoMatchingInstaller version LINUX arch))
       | Some filename \<Rightarrow> (requests, Inr (getDownloadUrl version ''local_installers'' filename)))"
    using assms(4) by (auto simp: locate_by_manifest_def assms(5) Let_def)
  also have "or_else (linux_scan version tail ?names) None = find (pattern_matches version tail) ?names"
  proof (cases "find (pattern_matches version tail) ?names")
    case None
    then show ?thesis by (simp add: linux_scan_find or_else_def)
  next
    case (Some f)
    then have "pattern_matches version tail f" by (auto simp: find_Some_iff)
    then have "f \<noteq> []"
      by (auto simp: pattern_matches_def match_at_def strip_prefix_def)
    then show ?thesis using Some by (simp add: linux_scan_find or_else_def)
  qed
  finally show "getCudaInstallerUrl links client version LINUX arch =
      (requests,
       case find (pattern_matches version tail) ?names of
         None \<Rightarrow> Inl (NoMatchingInstaller version LINUX arch)
       | Some filename \<Rightarrow>
           Inr (''https://developer.download.nvidia.com/compute/cuda/'' @ version
                @ ''/local_installers/'' @ filename))"
    by (auto simp: getDownloadUrl_def split: option.splits)
  have nd: "\<not> is_digit CHR ''_''" by (simp add: is_digit_def)
  from assms(4) show "\<forall>filename. pattern_matches version tail filename \<longleftrightarrow>
         (\<exists>pre d1 d2 opt post.
            filename = pre @ ''cuda_'' @ version @ ''_'' @ d1 @ ''.'' @ d2 @ opt @ tail @ post
            \<and> d1 \<noteq> [] \<and> list_all is_digit d1 \<and> d2 \<noteq> [] \<and> list_all is_digit d2
            \<and> (opt = [] \<or> (\<exists>d3. d3 \<noteq> [] \<and> list_all is_digit d3 \<and> opt = ''.'' @ d3)))"
  proof
    assume "arch = X86_64 \<and> tail = ''_linux.run''"
    then have "tail = CHR ''_'' # ''linux.run''" by simp
    from pattern_matches_iff [OF this nd] show ?thesis by simp
  next
    assume "arch = ARM64_SBSA \<and> tail = ''_linux_sbsa.run''"
    then have "tail = CHR ''_'' # ''linux_sbsa.run''" by simp
    from pattern_matches_iff [OF this nd] show ?thesis by simp
  qed
qed

theorem linux_branch_selects_installer_witness:
  "getCudaInstallerUrl CUDA_LINKS
     (example_client (''a cuda_11.2.0_460.27.04_linux_sbsa.run'' @ [CHR 0x0A]
                      @ ''b cuda_11.2.0_460.27.04_linux.run''))
     ''11.2.0'' LINUX X86_64 =
   ([''https://developer.download.nvidia.com/compute/cuda/11.2.0/docs/sidebar/md5sum.txt''],
    Inr ''https://developer.download.nvidia.com/compute/cuda/11.2.0/local_installers/cuda_11.2.0_460.27.04_linux.run'')"
proof -
  have v: "list_all (\<lambda>c. is_digit c \<or> c = CHR ''.'') ''11.2.0''"
    by (simp add: is_digit_def)
  have m: "jle (Fin 11) (major_of ''11.2.0'')"
    by (simp add: major_of_11_2_0 jle_def)
  have l: "\<forall>link. CUDA_LINKS ''11.2.0'' = Some link \<longrightarrow> linuxX86Url link = [] \<and> linuxArm64Url link = []"
    by (simp add: CUDA_LINKS_11_2_0)
  have a: "X86_64 = X86_64 \<and> ''_linux.run'' = ''_linux.run''
      \<or> X86_64 = ARM64_SBSA \<and> ''_linux.run'' = ''_linux_sbsa.run''"
    by simp
  have f: "fetchMd5sum CUDA_LINKS
      (example_client (''a cuda_11.2.0_460.27.04_linux_sbsa.run'' @ [CHR 0x0A]
                       @ ''b cuda_11.2.0_460.27.04_linux.run'')) ''11.2.0'' =
      ([''https://developer.download.nvidia.com/compute/cuda/11.2.0/docs/sidebar/md5sum.txt''],
       Inr [(''cuda_11.2.0_460.27.04_linux_sbsa.run'', ''a''),
            (''cuda_11.2.0_460.27.04_linux.run'', ''b'')])"
    by (simp add: manifest_eval)
  have p1: "\<not> pattern_matches ''11.2.0'' ''_linux.run'' ''cuda_11.2.0_460.27.04_linux_sbsa.run''"
    by (simp add: pattern_matches_def match_at_def strip_prefix_def version_token_def
        digits1_def is_digit_def)
  have p2: "pattern_matches ''11.2.0'' ''_linux.run'' ''cuda_11.2.0_460.27.04_linux.run''"
    by (simp add: pattern_matches_def match_at_def strip_prefix_def version_token_def
        digits1_def is_digit_def)
  show ?thesis
    using linux_branch_selects_installer [OF v m l a f, THEN conjunct1]
    by (simp add: manifest_eval p1 p2)
qed

end
